theory Spec2Isabelle
  imports Complex_Main "HOL-Library.Word" "HOL-Library.Log_Nat"
begin

section \<open>JavaScript values used by the server\<close>

text \<open>
  A JavaScript string is a sequence of 16-bit code units. Literals of the source are
  written \<open>js ''...''\<close>. A JavaScript number is a double; the numbers the server
  computes are counters, indices and parsed integers, so the model keeps the doubles
  that hold an integer, the two infinities and \<open>NaN\<close>, and rounds every sum, product
  and parse to the nearest double as the machine does.
\<close>

type_synonym jschar = "16 word"
type_synonym jsstring = "jschar list"

definition js :: "string \<Rightarrow> jsstring" where
  "js s = map of_char s"

text \<open>
  A field of an object returned by \<open>querystring.parse\<close> (also behind
  \<open>url.parse(_, true).query\<close>): missing (\<open>undefined\<close>), one string, or an array of
  strings when the key is repeated.
\<close>

datatype qval = Absent | Single jsstring | Multi "jsstring list"

datatype error = URIError | TypeError | NotLoggedIn | HostError | InvalidChar | RangeError

fun truthy :: "qval \<Rightarrow> bool" where
  "truthy Absent = False"
| "truthy (Single s) = (s \<noteq> [])"
| "truthy (Multi ss) = True"

text \<open>\<open>v || d\<close> for a query field and a string default.\<close>

definition orDefault :: "qval \<Rightarrow> jsstring \<Rightarrow> qval" where
  "orDefault v d = (if truthy v then v else Single d)"

fun join :: "jsstring \<Rightarrow> jsstring list \<Rightarrow> jsstring" where
  "join sep [] = []"
| "join sep [s] = s"
| "join sep (s # t # ss) = s @ sep @ join sep (t # ss)"

text \<open>\<open>ToString\<close>, as applied by \<open>parseInt\<close> and by template literals.\<close>

fun toString :: "qval \<Rightarrow> jsstring" where
  "toString Absent = js ''undefined''"
| "toString (Single s) = s"
| "toString (Multi ss) = join (js '','') ss"

subsection \<open>Whitespace, trim, split\<close>

text \<open>The code units \<open>String.prototype.trim\<close> and \<open>parseInt\<close> skip: WhiteSpace and LineTerminator.\<close>

definition isWhiteSpace :: "jschar \<Rightarrow> bool" where
  "isWhiteSpace c \<longleftrightarrow>
     c \<in> set [0x9, 0xA, 0xB, 0xC, 0xD, 0x20, 0xA0, 0x1680, 0x2028, 0x2029, 0x202F, 0x205F, 0x3000, 0xFEFF]
     \<or> (0x2000 \<le> c \<and> c \<le> 0x200A)"

definition str_trim :: "jsstring \<Rightarrow> jsstring" where
  "str_trim s = rev (dropWhile isWhiteSpace (rev (dropWhile isWhiteSpace s)))"

fun str_split :: "jschar \<Rightarrow> jsstring \<Rightarrow> jsstring list" where
  "str_split sep [] = [[]]"
| "str_split sep (c # cs) =
     (if c = sep then [] # str_split sep cs
      else (case str_split sep cs of [] \<Rightarrow> [[c]] | p # ps \<Rightarrow> (c # p) # ps))"

text \<open>\<open>isEmptyOrWhitespace = (str) => (!str || str.trim().length === 0)\<close>; an array has no \<open>trim\<close>.\<close>

fun isEmptyOrWhitespace :: "qval \<Rightarrow> error + bool" where
  "isEmptyOrWhitespace Absent = Inr True"
| "isEmptyOrWhitespace (Single s) = Inr (s = [] \<or> str_trim s = [])"
| "isEmptyOrWhitespace (Multi ss) = Inl TypeError"

subsection \<open>Numbers\<close>

text \<open>
  \<open>Finite n\<close> is the double whose value is the integer \<open>n\<close>. Negative zero is not
  told apart from zero: both are falsy, index like 0, print as \<open>0\<close> and compare equal,
  and the server never divides by a zero it computed.
\<close>

datatype jsnum = Finite int | Infinity | NegInfinity | NotANumber

text \<open>
  The nearest double to an integer, ties to the even significand. Integers up to
  \<open>2 ^ 53\<close> in magnitude are doubles; a larger one keeps its 53 leading bits.
\<close>

definition round_double :: "int \<Rightarrow> int" where
  "round_double x =
     (if \<bar>x\<bar> \<le> 2 ^ 53 then x
      else (let a = \<bar>x\<bar>;
                q = 2 ^ nat (bitlen a - 53);
                m = a div q;
                r = a mod q;
                m' = (if 2 * r < q \<or> (2 * r = q \<and> even m) then m else m + 1)
            in sgn x * (m' * q)))"

text \<open>The number an exact integer result becomes: rounded, infinite from \<open>2 ^ 1024\<close> on.\<close>

definition to_double :: "int \<Rightarrow> jsnum" where
  "to_double x =
     (if 2 ^ 1024 \<le> \<bar>x\<bar> \<or> 2 ^ 1024 \<le> \<bar>round_double x\<bar>
      then (if 0 < x then Infinity else NegInfinity)
      else Finite (round_double x))"

text \<open>
  \<open>n + 1\<close> for a counter: the sum of a finite double and 1 is finite, so only the
  rounding shows. At \<open>2 ^ 53\<close> the sum is \<open>2 ^ 53\<close> again.
\<close>

definition plus_one :: "int \<Rightarrow> int" where
  "plus_one n = round_double (n + 1)"

fun js_negate :: "jsnum \<Rightarrow> jsnum" where
  "js_negate (Finite a) = Finite (- a)"
| "js_negate Infinity = NegInfinity"
| "js_negate NegInfinity = Infinity"
| "js_negate NotANumber = NotANumber"

fun js_add :: "jsnum \<Rightarrow> jsnum \<Rightarrow> jsnum" where
  "js_add NotANumber y = NotANumber"
| "js_add x NotANumber = NotANumber"
| "js_add (Finite a) (Finite b) = to_double (a + b)"
| "js_add Infinity NegInfinity = NotANumber"
| "js_add NegInfinity Infinity = NotANumber"
| "js_add Infinity y = Infinity"
| "js_add x Infinity = Infinity"
| "js_add NegInfinity y = NegInfinity"
| "js_add x NegInfinity = NegInfinity"

definition js_sub :: "jsnum \<Rightarrow> jsnum \<Rightarrow> jsnum" where
  "js_sub x y = js_add x (js_negate y)"

fun js_sign :: "jsnum \<Rightarrow> int" where
  "js_sign (Finite a) = sgn a"
| "js_sign Infinity = 1"
| "js_sign NegInfinity = - 1"
| "js_sign NotANumber = 0"

definition js_mul :: "jsnum \<Rightarrow> jsnum \<Rightarrow> jsnum" where
  "js_mul x y =
     (case (x, y) of
        (Finite a, Finite b) \<Rightarrow> to_double (a * b)
      | _ \<Rightarrow>
          if x = NotANumber \<or> y = NotANumber \<or> js_sign x * js_sign y = 0 then NotANumber
          else if 0 < js_sign x * js_sign y then Infinity
          else NegInfinity)"

text \<open>\<open>x <= y\<close> and \<open>x < y\<close>: false when either side is \<open>NaN\<close>.\<close>

fun js_le :: "jsnum \<Rightarrow> jsnum \<Rightarrow> bool" where
  "js_le NotANumber y = False"
| "js_le x NotANumber = False"
| "js_le NegInfinity y = True"
| "js_le x Infinity = True"
| "js_le (Finite a) (Finite b) = (a \<le> b)"
| "js_le x y = False"

definition js_lt :: "jsnum \<Rightarrow> jsnum \<Rightarrow> bool" where
  "js_lt x y \<longleftrightarrow> js_le x y \<and> x \<noteq> y"

text \<open>\<open>Math.min(x, y)\<close>.\<close>

definition js_min :: "jsnum \<Rightarrow> jsnum \<Rightarrow> jsnum" where
  "js_min x y =
     (if x = NotANumber \<or> y = NotANumber then NotANumber
      else if js_le x y then x else y)"

text \<open>
  The nearest double to a rational, ties to the even significand: 53 significant bits,
  and steps of \<open>2 ^ - 1074\<close> below the smallest normal number.
\<close>

definition round_rat :: "rat \<Rightarrow> rat" where
  "round_rat x =
     (if x = 0 then 0
      else (let a = \<bar>x\<bar>;
                E = (if 1 \<le> a then bitlen \<lfloor>a\<rfloor> - 1 else - bitlen (\<lceil>1 / a\<rceil> - 1));
                e = max (E - 52) (- 1074);
                u = (if 0 \<le> e then 2 ^ nat e else 1 / 2 ^ nat (- e));
                m = a / u;
                f = \<lfloor>m\<rfloor>;
                d = m - of_int f;
                m' = (if d < 1 / 2 \<or> (d = 1 / 2 \<and> even f) then f else f + 1)
            in sgn x * of_int m' * u))"

text \<open>
  \<open>Math.ceil(x / y)\<close>: the quotient is rounded to a double before the ceiling is
  taken. A zero divisor is the positive zero.
\<close>

definition ceil_quotient :: "int \<Rightarrow> int \<Rightarrow> jsnum" where
  "ceil_quotient a b =
     (let r = round_rat (of_int a / of_int b)
      in if 2 ^ 1024 \<le> \<bar>r\<bar> then (if 0 < r then Infinity else NegInfinity)
         else Finite \<lceil>r\<rceil>)"

definition js_ceil_div :: "jsnum \<Rightarrow> jsnum \<Rightarrow> jsnum" where
  "js_ceil_div x y =
     (case (x, y) of
        (Finite a, Finite b) \<Rightarrow>
          if b = 0 then (if a = 0 then NotANumber else if 0 < a then Infinity else NegInfinity)
          else ceil_quotient a b
      | (Finite a, Infinity) \<Rightarrow> Finite 0
      | (Finite a, NegInfinity) \<Rightarrow> Finite 0
      | (Infinity, Finite b) \<Rightarrow> (if b < 0 then NegInfinity else Infinity)
      | (NegInfinity, Finite b) \<Rightarrow> (if b < 0 then Infinity else NegInfinity)
      | _ \<Rightarrow> NotANumber)"

text \<open>\<open>n || d\<close> for a number: \<open>NaN\<close> and \<open>0\<close> are falsy.\<close>

definition numOr :: "jsnum \<Rightarrow> jsnum \<Rightarrow> jsnum" where
  "numOr n d = (if n = NotANumber \<or> n = Finite 0 then d else n)"

subsection \<open>parseInt\<close>

definition digitVal :: "nat \<Rightarrow> jschar \<Rightarrow> nat option" where
  "digitVal R c =
     (let v = (if 0x30 \<le> c \<and> c \<le> 0x39 then unat c - 0x30
               else if 0x61 \<le> c \<and> c \<le> 0x7A then unat c - 0x61 + 10
               else if 0x41 \<le> c \<and> c \<le> 0x5A then unat c - 0x41 + 10
               else R)
      in if v < R then Some v else None)"

definition isDigit :: "nat \<Rightarrow> jschar \<Rightarrow> bool" where
  "isDigit R c \<longleftrightarrow> digitVal R c \<noteq> None"

definition digitsValue :: "nat \<Rightarrow> jsstring \<Rightarrow> int" where
  "digitsValue R Z = foldl (\<lambda>a c. a * int R + int (case digitVal R c of None \<Rightarrow> 0 | Some v \<Rightarrow> v)) 0 Z"

text \<open>
  \<open>parseInt(string)\<close> with no radix: skip leading whitespace, read a sign, read a
  \<open>0x\<close>/\<open>0X\<close> prefix (radix 16, otherwise 10), take the longest run of digits;
  \<open>NaN\<close> when the run is empty, otherwise the double nearest to the signed value of
  the digits.
\<close>

definition parseIntStr :: "jsstring \<Rightarrow> jsnum" where
  "parseIntStr inputString =
     (let S = dropWhile isWhiteSpace inputString;
          sign = (case S of c # _ \<Rightarrow> if c = 0x2D then - 1 else 1 | [] \<Rightarrow> (1::int));
          S1 = (case S of c # t \<Rightarrow> if c = 0x2D \<or> c = 0x2B then t else S | [] \<Rightarrow> S);
          hex = (case S1 of z # x # _ \<Rightarrow> z = 0x30 \<and> (x = 0x78 \<or> x = 0x58) | _ \<Rightarrow> False);
          R = (if hex then 16 else 10);
          S2 = (if hex then drop 2 S1 else S1);
          Z = takeWhile (isDigit R) S2
      in if Z = [] then NotANumber else to_double (sign * digitsValue R Z))"

definition parseInt :: "qval \<Rightarrow> jsnum" where
  "parseInt v = parseIntStr (toString v)"

text \<open>Decimal rendering of an integer up to \<open>2 ^ 53\<close> in a template literal.\<close>

function natDigits :: "nat \<Rightarrow> jsstring" where
  "natDigits n = (if n < 10 then [of_nat (48 + n)] else natDigits (n div 10) @ [of_nat (48 + n mod 10)])"
  by pat_completeness auto
termination
  by (relation "measure (\<lambda>n. n)") auto

declare natDigits.simps [simp del]

definition intToString :: "int \<Rightarrow> jsstring" where
  "intToString i = (if i < 0 then 0x2D # natDigits (nat (- i)) else natDigits (nat i))"

subsection \<open>decodeURIComponent\<close>

text \<open>
  The \<open>Decode\<close> operation of ECMA-262 with an empty set of preserved escapes: a \<open>%\<close>
  must be followed by two hexadecimal digits; an octet below \<open>0x80\<close> is that code
  unit; a larger one starts a UTF-8 sequence of \<open>n\<close> octets, each further one written
  \<open>%XX\<close>, which must be a well-formed encoding of a code point. Every other input
  throws \<open>URIError\<close>.
\<close>

definition parseHexOctet :: "jschar \<Rightarrow> jschar \<Rightarrow> nat option" where
  "parseHexOctet h l =
     (case digitVal 16 h of None \<Rightarrow> None
      | Some a \<Rightarrow> (case digitVal 16 l of None \<Rightarrow> None | Some b \<Rightarrow> Some (16 * a + b)))"

definition leadingOnes :: "nat \<Rightarrow> nat" where
  "leadingOnes B =
     (if B < 0x80 then 0 else if B < 0xC0 then 1 else if B < 0xE0 then 2
      else if B < 0xF0 then 3 else if B < 0xF8 then 4 else 5)"

fun continuationOctets :: "nat \<Rightarrow> jsstring \<Rightarrow> nat list option" where
  "continuationOctets 0 s = Some []"
| "continuationOctets (Suc k) (p # h # l # s) =
     (if p \<noteq> 0x25 then None
      else (case parseHexOctet h l of None \<Rightarrow> None
            | Some b \<Rightarrow> map_option ((#) b) (continuationOctets k s)))"
| "continuationOctets (Suc k) s = None"

definition isCont :: "nat \<Rightarrow> bool" where
  "isCont b \<longleftrightarrow> 0x80 \<le> b \<and> b \<le> 0xBF"

fun utf8CodePoint :: "nat list \<Rightarrow> nat option" where
  "utf8CodePoint [a, b] =
     (if 0xC2 \<le> a \<and> a \<le> 0xDF \<and> isCont b then Some ((a - 0xC0) * 64 + (b - 0x80)) else None)"
| "utf8CodePoint [a, b, c] =
     (if ((a = 0xE0 \<and> 0xA0 \<le> b \<and> b \<le> 0xBF)
          \<or> (((0xE1 \<le> a \<and> a \<le> 0xEC) \<or> a = 0xEE \<or> a = 0xEF) \<and> isCont b)
          \<or> (a = 0xED \<and> 0x80 \<le> b \<and> b \<le> 0x9F)) \<and> isCont c
      then Some ((a - 0xE0) * 4096 + (b - 0x80) * 64 + (c - 0x80)) else None)"
| "utf8CodePoint [a, b, c, d] =
     (if ((a = 0xF0 \<and> 0x90 \<le> b \<and> b \<le> 0xBF)
          \<or> (0xF1 \<le> a \<and> a \<le> 0xF3 \<and> isCont b)
          \<or> (a = 0xF4 \<and> 0x80 \<le> b \<and> b \<le> 0x8F)) \<and> isCont c \<and> isCont d
      then Some ((a - 0xF0) * 262144 + (b - 0x80) * 4096 + (c - 0x80) * 64 + (d - 0x80)) else None)"
| "utf8CodePoint octets = None"

definition utf16Encode :: "nat \<Rightarrow> jsstring" where
  "utf16Encode V =
     (if V \<le> 0xFFFF then [of_nat V]
      else [of_nat ((V - 0x10000) div 0x400 + 0xD800), of_nat ((V - 0x10000) mod 0x400 + 0xDC00)])"

fun decodeURIComponent :: "jsstring \<Rightarrow> error + jsstring" where
  "decodeURIComponent [] = Inr []"
| "decodeURIComponent (c # cs) =
     (if c \<noteq> 0x25 then
        (case decodeURIComponent cs of Inl e \<Rightarrow> Inl e | Inr R \<Rightarrow> Inr (c # R))
      else
        (case cs of
           h # l # rest \<Rightarrow>
             (case parseHexOctet h l of
                None \<Rightarrow> Inl URIError
              | Some B \<Rightarrow>
                  if leadingOnes B = 0 then
                    (case decodeURIComponent rest of Inl e \<Rightarrow> Inl e | Inr R \<Rightarrow> Inr (of_nat B # R))
                  else if leadingOnes B = 1 \<or> 4 < leadingOnes B then Inl URIError
                  else if length rest < 3 * (leadingOnes B - 1) then Inl URIError
                  else
                    (case continuationOctets (leadingOnes B - 1) rest of
                       None \<Rightarrow> Inl URIError
                     | Some octets \<Rightarrow>
                         (case utf8CodePoint (B # octets) of
                            None \<Rightarrow> Inl URIError
                          | Some V \<Rightarrow>
                              (case decodeURIComponent (drop (3 * (leadingOnes B - 1)) rest) of
                                 Inl e \<Rightarrow> Inl e
                               | Inr R \<Rightarrow> Inr (utf16Encode V @ R)))))
         | _ \<Rightarrow> Inl URIError))"


subsection \<open>Arrays\<close>

text \<open>\<open>xs[i]\<close>: \<open>undefined\<close> (\<open>None\<close>) out of range.\<close>

fun array_get :: "'a list \<Rightarrow> nat \<Rightarrow> 'a option" where
  "array_get [] i = None"
| "array_get (x # xs) 0 = Some x"
| "array_get (x # xs) (Suc i) = array_get xs i"

text \<open>\<open>Array.prototype.findIndex\<close>, with \<open>None\<close> for \<open>-1\<close>.\<close>

fun array_findIndex :: "('a \<Rightarrow> bool) \<Rightarrow> 'a list \<Rightarrow> nat option" where
  "array_findIndex P [] = None"
| "array_findIndex P (x # xs) = (if P x then Some 0 else map_option Suc (array_findIndex P xs))"

text \<open>
  \<open>Array.prototype.slice(start, end)\<close>: \<open>NaN\<close> indexes like 0, a negative index counts
  from the end, both indices are clamped to the array.
\<close>

definition relative_index :: "nat \<Rightarrow> jsnum \<Rightarrow> nat" where
  "relative_index len i =
     (case i of
        NotANumber \<Rightarrow> 0
      | NegInfinity \<Rightarrow> 0
      | Infinity \<Rightarrow> len
      | Finite n \<Rightarrow> if n < 0 then nat (max (int len + n) 0) else nat (min n (int len)))"

definition array_slice :: "'a list \<Rightarrow> jsnum \<Rightarrow> jsnum \<Rightarrow> 'a list" where
  "array_slice xs start stop =
     (let k = relative_index (length xs) start;
          final = relative_index (length xs) stop
      in take (final - k) (drop k xs))"

text \<open>
  \<open>Array.prototype.sort(cmp)\<close> is stable; for a comparator that orders the elements
  consistently its result is the one of this insertion sort, which puts an element
  before the first later element it does not compare greater than.
\<close>

fun insert_by :: "('a \<Rightarrow> 'a \<Rightarrow> int) \<Rightarrow> 'a \<Rightarrow> 'a list \<Rightarrow> 'a list" where
  "insert_by cmp x [] = [x]"
| "insert_by cmp x (y # ys) = (if cmp x y \<le> 0 then x # y # ys else y # insert_by cmp x ys)"

definition array_sort :: "('a \<Rightarrow> 'a \<Rightarrow> int) \<Rightarrow> 'a list \<Rightarrow> 'a list" where
  "array_sort cmp xs = foldr (insert_by cmp) xs []"

section \<open>Data model\<close>

text \<open>
  A post; its \<open>id\<close> is the field \<open>topic_id\<close>. Ids, of posts and of users, are
  integers (the server writes no other). \<open>title\<close> and \<open>description\<close> hold whatever
  the form field held when the post was last written. \<open>created_at\<close> and \<open>updated_at\<close> are the ISO-8601 strings written by
  \<open>toISOString()\<close>, identified with the time value (milliseconds) that \<open>new Date(_)\<close>
  reads back from them.
\<close>

record topic =
  topic_id :: int
  title :: qval
  description :: qval
  created_at :: int
  updated_at :: int
  author :: int

text \<open>
  A user object; its \<open>id\<close> is the field \<open>user_id\<close>, and \<open>password = None\<close> is an object
  without that property.
\<close>

record user =
  user_id :: int
  username :: jsstring
  password :: "jsstring option"
  nickname :: jsstring

record state =
  topics :: "topic list"
  users :: "user list"
  nextId :: int
  nextUserId :: int
  sessions :: "jsstring \<rightharpoonup> int"

text \<open>
  What the host provides and the repository does not define: the locale-aware sort by
  title (\<open>sorted.sort((a, b) => a.title.localeCompare(b.title))\<close>, which throws when it
  calls \<open>localeCompare\<close> on a title that is not a string), whether \<open>marked.parse\<close>
  throws on a description, and the digits a template literal prints for an integer
  above \<open>2 ^ 53\<close> in magnitude (the shortest that read back as the same double).
\<close>

record host =
  sort_title_asc :: "topic list \<Rightarrow> error + topic list"
  marked_throws :: "qval \<Rightarrow> bool"
  number_digits :: "int \<Rightarrow> jsstring"

text \<open>A number in a template literal.\<close>

definition numberToString :: "host \<Rightarrow> jsnum \<Rightarrow> jsstring" where
  "numberToString h n =
     (case n of
        Finite i \<Rightarrow> if \<bar>i\<bar> \<le> 2 ^ 53 then intToString i else number_digits h i
      | Infinity \<Rightarrow> js ''Infinity''
      | NegInfinity \<Rightarrow> js ''-Infinity''
      | NotANumber \<Rightarrow> js ''NaN'')"

text \<open>
  A request as the handler reads it: \<open>request.method\<close>, \<open>parsedUrl.pathname\<close>,
  \<open>parsedUrl.query\<close>, \<open>request.headers.cookie\<close>, the parsed body \<open>qs.parse(body)\<close>, the
  clock and the random token \<open>generateSessionId()\<close> would draw.
\<close>

record request =
  request_method :: jsstring
  pathName :: jsstring
  query :: "jsstring \<Rightarrow> qval"
  headers_cookie :: "jsstring option"
  post :: "jsstring \<Rightarrow> qval"
  now :: int
  random_token :: jsstring

section \<open>Startup\<close>

definition initialTopics :: "int \<Rightarrow> topic list" where
  "initialTopics t =
     [\<lparr>topic_id = 1,
       title = Single [0xC11C, 0xBE44, 0xC2A4, 0x20, 0xC548, 0xB0B4],
       description = Single
         [0xC774, 0x20, 0xAC8C, 0xC2DC, 0xD310, 0xC740, 0x20, 0xB85C, 0xADF8, 0xC778,
          0x20, 0xAE30, 0xBC18, 0x20, 0xC11C, 0xBE44, 0xC2A4, 0xC785, 0xB2C8, 0xB2E4,
          0x2E, 0x20, 0xD68C, 0xC6D0, 0xAC00, 0xC785, 0x20, 0xD6C4, 0x20, 0xC774, 0xC6A9,
          0xD574, 0x20, 0xC8FC, 0xC138, 0xC694, 0x2E],
       created_at = t, updated_at = t, author = 0\<rparr>]"

text \<open>\<open>loadData\<close>: the parsed file, or the initial data when the file cannot be read.\<close>

definition loadData :: "'a option \<Rightarrow> 'a \<Rightarrow> 'a" where
  "loadData file initialData = (case file of Some arr \<Rightarrow> arr | None \<Rightarrow> initialData)"

text \<open>\<open>Math.max(...xs)\<close> of a non-empty array.\<close>

fun math_max :: "int list \<Rightarrow> int" where
  "math_max [] = 0"
| "math_max [x] = x"
| "math_max (x # y # ys) = max x (math_max (y # ys))"

definition startup :: "int \<Rightarrow> topic list option \<Rightarrow> user list option \<Rightarrow> state" where
  "startup t topics_file users_file =
     (let ts = loadData topics_file (initialTopics t);
          us = loadData users_file []
      in \<lparr>topics = ts, users = us,
          nextId = (if length ts > 0 then plus_one (math_max (map topic_id ts)) else 1),
          nextUserId = (if length us > 0 then plus_one (math_max (map user_id us)) else 1),
          sessions = Map.empty\<rparr>)"

text \<open>
  The process starts again at time \<open>t\<close>. \<open>saveTopics()\<close> and \<open>saveUsers()\<close> wrote each
  collection to its file after every change, so the files hold the collections of the
  state the process stopped in; the sessions and both counters are not stored.
\<close>

definition restart :: "int \<Rightarrow> state \<Rightarrow> state" where
  "restart t s = startup t (Some (topics s)) (Some (users s))"

section \<open>Cookies and the logged-in user\<close>

text \<open>
  \<open>list[key] = value\<close> on the plain object \<open>list\<close>: the key \<open>__proto__\<close> reaches the
  setter of \<open>Object.prototype\<close>, which ignores a string, so no property is stored.
\<close>

definition object_set :: "(jsstring \<rightharpoonup> jsstring) \<Rightarrow> jsstring \<Rightarrow> jsstring \<Rightarrow> (jsstring \<rightharpoonup> jsstring)" where
  "object_set list k v = (if k = js ''__proto__'' then list else list(k \<mapsto> v))"

fun parseCookies_forEach :: "jsstring list \<Rightarrow> (jsstring \<rightharpoonup> jsstring) \<Rightarrow> error + (jsstring \<rightharpoonup> jsstring)" where
  "parseCookies_forEach [] list = Inr list"
| "parseCookies_forEach (cookie # rest) list =
     (let parts = str_split 0x3D cookie in
      case array_get parts 0 of
        None \<Rightarrow> Inl TypeError
      | Some p0 \<Rightarrow>
          (case array_get parts 1 of
             None \<Rightarrow> parseCookies_forEach rest (object_set list (str_trim p0) [])
           | Some p1 \<Rightarrow>
               if p1 = [] then parseCookies_forEach rest (object_set list (str_trim p0) [])
               else (case decodeURIComponent (str_trim p1) of
                       Inl e \<Rightarrow> Inl e
                     | Inr v \<Rightarrow> parseCookies_forEach rest (object_set list (str_trim p0) v))))"

definition parseCookies :: "request \<Rightarrow> error + (jsstring \<rightharpoonup> jsstring)" where
  "parseCookies r =
     (case headers_cookie r of
        None \<Rightarrow> Inr Map.empty
      | Some cookieHeader \<Rightarrow>
          if cookieHeader = [] then Inr Map.empty
          else parseCookies_forEach (str_split 0x3B cookieHeader) Map.empty)"

text \<open>
  \<open>sessions[sessionId]\<close> on the plain object \<open>sessions\<close>: an own property holds a user
  id; the names \<open>Object.prototype\<close> defines are found there and hold a function or an
  object; any other name is \<open>undefined\<close>.
\<close>

datatype sval = SUndefined | SNumber int | SInherited

definition objectPrototypeKeys :: "jsstring list" where
  "objectPrototypeKeys =
     map js [''constructor'', ''__proto__'', ''hasOwnProperty'', ''isPrototypeOf'',
             ''propertyIsEnumerable'', ''toLocaleString'', ''toString'', ''valueOf'',
             ''__defineGetter__'', ''__defineSetter__'', ''__lookupGetter__'', ''__lookupSetter__'']"

definition sessions_get :: "(jsstring \<rightharpoonup> int) \<Rightarrow> jsstring \<Rightarrow> sval" where
  "sessions_get ss k =
     (case ss k of
        Some n \<Rightarrow> SNumber n
      | None \<Rightarrow> if k \<in> set objectPrototypeKeys then SInherited else SUndefined)"

definition getLoggedInUser :: "state \<Rightarrow> request \<Rightarrow> error + user option" where
  "getLoggedInUser s r =
     (case parseCookies r of
        Inl e \<Rightarrow> Inl e
      | Inr cookies \<Rightarrow>
          (case cookies (js ''sessionId'') of
             None \<Rightarrow> Inr None
           | Some sessionId \<Rightarrow>
               if sessionId = [] then Inr None
               else (case sessions_get (sessions s) sessionId of
                       SUndefined \<Rightarrow> Inr None
                     | SInherited \<Rightarrow> Inr None
                     | SNumber userId \<Rightarrow>
                         if userId = 0 then Inr None
                         else (case find (\<lambda>u. user_id u = userId) (users s) of
                                 None \<Rightarrow> Inr None
                               | Some u \<Rightarrow> Inr (Some (u\<lparr>password := None\<rparr>))))))"


section \<open>Listing: sort and pagination\<close>

text \<open>
  \<open>sortTopics\<close> copies the array and sorts the copy. The comparators subtract time
  values; the \<open>title_asc\<close> sort is the host's.
\<close>

definition sortTopics :: "host \<Rightarrow> topic list \<Rightarrow> qval \<Rightarrow> error + topic list" where
  "sortTopics h topicArray sortKey =
     (let copied = topicArray in
      if sortKey = Single (js ''latest'') then
        Inr (array_sort (\<lambda>a b. created_at b - created_at a) copied)
      else if sortKey = Single (js ''oldest'') then
        Inr (array_sort (\<lambda>a b. created_at a - created_at b) copied)
      else if sortKey = Single (js ''title_asc'') then
        sort_title_asc h copied
      else
        Inr (array_sort (\<lambda>a b. created_at b - created_at a) copied))"

text \<open>
  The same function on an explicit store of arrays, where \<open>[...topicArray]\<close> allocates a
  new array and \<open>sort\<close> overwrites the array it is called on and returns its reference.
\<close>

record store =
  cells :: "nat \<rightharpoonup> topic list"
  next_ref :: nat

definition store_spread :: "store \<Rightarrow> nat \<Rightarrow> (nat \<times> store) option" where
  "store_spread st a =
     (case cells st a of
        None \<Rightarrow> None
      | Some xs \<Rightarrow> Some (next_ref st, st\<lparr>cells := (cells st)(next_ref st \<mapsto> xs), next_ref := Suc (next_ref st)\<rparr>))"

definition store_sort :: "store \<Rightarrow> nat \<Rightarrow> (topic list \<Rightarrow> error + topic list) \<Rightarrow> ((error + nat) \<times> store) option" where
  "store_sort st a f =
     (case cells st a of
        None \<Rightarrow> None
      | Some xs \<Rightarrow>
          (case f xs of
             Inl e \<Rightarrow> Some (Inl e, st)
           | Inr ys \<Rightarrow> Some (Inr a, st\<lparr>cells := (cells st)(a \<mapsto> ys)\<rparr>)))"

definition sortTopics_store :: "host \<Rightarrow> store \<Rightarrow> nat \<Rightarrow> qval \<Rightarrow> ((error + nat) \<times> store) option" where
  "sortTopics_store h st topicArray sortKey =
     (case store_spread st topicArray of
        None \<Rightarrow> None
      | Some (copied, st1) \<Rightarrow>
          if sortKey = Single (js ''latest'') then
            store_sort st1 copied (\<lambda>xs. Inr (array_sort (\<lambda>a b. created_at b - created_at a) xs))
          else if sortKey = Single (js ''oldest'') then
            store_sort st1 copied (\<lambda>xs. Inr (array_sort (\<lambda>a b. created_at a - created_at b) xs))
          else if sortKey = Single (js ''title_asc'') then
            store_sort st1 copied (sort_title_asc h)
          else
            store_sort st1 copied (\<lambda>xs. Inr (array_sort (\<lambda>a b. created_at b - created_at a) xs)))"

text \<open>The slice of one page, lines 343 to 345 of the \<open>/\<close> handler.\<close>

definition pagedTopics :: "topic list \<Rightarrow> jsnum \<Rightarrow> jsnum \<Rightarrow> topic list" where
  "pagedTopics sortedTopics page limit =
     (let startIndex = js_mul (js_sub page (Finite 1)) limit;
          endIndex = js_add startIndex limit
      in array_slice sortedTopics startIndex endIndex)"

text \<open>
  \<open>Math.ceil(totalTopics / limit)\<close> for the length of an array. A zero limit divides
  by zero: the quotient is infinite, or \<open>NaN\<close> for \<open>0 / 0\<close>. An infinite limit gives the
  quotient 0. For any other limit the quotient of an array length, which is below
  \<open>2 ^ 32\<close>, is not rounded across an integer, so its ceiling is the exact one: on
  array lengths the function is \<open>js_ceil_div\<close>, the ceiling of the rounded quotient
  (lemma \<open>totalPagesOf_is_rounded_ceiling\<close>).
\<close>

definition totalPagesOf :: "int \<Rightarrow> jsnum \<Rightarrow> jsnum" where
  "totalPagesOf totalTopics limit =
     (case limit of
        Finite l \<Rightarrow>
          if l = 0 then (if totalTopics = 0 then NotANumber
                         else if 0 < totalTopics then Infinity else NegInfinity)
          else Finite (- ((- totalTopics) div l))
      | Infinity \<Rightarrow> Finite 0
      | NegInfinity \<Rightarrow> Finite 0
      | NotANumber \<Rightarrow> NotANumber)"

record pager =
  prev_link :: "jsnum option"
  page_links :: "jsnum list"
  current_page :: jsnum
  next_link :: "jsnum option"

text \<open>
  The loop \<open>for (let i = startPage; i <= endPage; i++)\<close>. Where \<open>i + 1\<close> rounds back to
  \<open>i\<close> below the bound the loop never leaves by its test (\<open>None\<close>).
\<close>

partial_function (option) page_links_loop :: "jsnum \<Rightarrow> jsnum \<Rightarrow> jsnum list \<Rightarrow> jsnum list option" where
  "page_links_loop i endPage links =
     (if js_le i endPage then page_links_loop (js_add i (Finite 1)) endPage (links @ [i])
      else Some links)"

declare page_links_loop.simps [code]

text \<open>
  \<open>templatePagination\<close>; \<open>Inr None\<close> is the empty string. A loop that never leaves
  appends to \<open>paginationHtml\<close> until the string passes the engine's length limit and the
  append throws \<open>RangeError\<close>.
\<close>

definition templatePagination :: "int \<Rightarrow> jsnum \<Rightarrow> jsnum \<Rightarrow> error + pager option" where
  "templatePagination totalTopics page limit =
     (let totalPages = totalPagesOf totalTopics limit in
      if js_le totalPages (Finite 1) then Inr None
      else
        (let pageGroupSize = Finite 5;
             currentGroup = js_ceil_div page pageGroupSize;
             startPage = js_add (js_mul (js_sub currentGroup (Finite 1)) pageGroupSize) (Finite 1);
             endPage = js_min (js_sub (js_add startPage pageGroupSize) (Finite 1)) totalPages
         in case page_links_loop startPage endPage [] of
              None \<Rightarrow> Inl RangeError
            | Some links \<Rightarrow>
                Inr (Some \<lparr>prev_link = (if js_lt (Finite 1) currentGroup
                                         then Some (js_sub startPage (Finite 1)) else None),
                           page_links = links,
                           current_page = page,
                           next_link = (if js_lt (js_mul currentGroup pageGroupSize) totalPages
                                        then Some (js_add endPage (Finite 1)) else None)\<rparr>)))"

text \<open>The parameters of the \<open>/\<close> handler, lines 334 to 336.\<close>

definition pageOf :: "request \<Rightarrow> jsnum" where
  "pageOf r = numOr (parseInt (query r (js ''page''))) (Finite 1)"

definition DEFAULT_ITEMS_PER_PAGE :: int where
  "DEFAULT_ITEMS_PER_PAGE = 10"

definition limitOf :: "request \<Rightarrow> jsnum" where
  "limitOf r = numOr (parseInt (query r (js ''limit''))) (Finite DEFAULT_ITEMS_PER_PAGE)"

definition sortOf :: "request \<Rightarrow> qval" where
  "sortOf r = orDefault (query r (js ''sort'')) (js ''latest'')"

section \<open>Responses\<close>

text \<open>
  The HTML of a response is kept as the template that produced it and the data put
  into it; the headers \<open>Location\<close> and \<open>Set-Cookie\<close> are kept as strings.
\<close>

datatype detail = Intro | Detail topic bool | PostNotFound

datatype page =
    Index "topic list" "pager option" detail
  | CreateForm
  | UpdateForm topic
  | LoginForm
  | RegisterForm
  | BadRequest
  | Forbidden
  | Conflict
  | Unauthorized
  | ServerError
  | NotFound

record response =
  status :: nat
  location :: "jsstring option"
  set_cookie :: "jsstring option"
  body :: "page option"

text \<open>
  What a request ends in: a response, no response at all (nothing is ever written and
  the client waits), or an exception nothing catches.
\<close>

datatype outcome = Responded response | NoResponse | Uncaught error

definition html :: "nat \<Rightarrow> page \<Rightarrow> outcome" where
  "html code p = Responded \<lparr>status = code, location = None, set_cookie = None, body = Some p\<rparr>"

definition redirect :: "jsstring \<Rightarrow> outcome" where
  "redirect loc = Responded \<lparr>status = 302, location = Some loc, set_cookie = None, body = None\<rparr>"

definition redirect_cookie :: "jsstring \<Rightarrow> jsstring \<Rightarrow> outcome" where
  "redirect_cookie loc c = Responded \<lparr>status = 302, location = Some loc, set_cookie = Some c, body = None\<rparr>"

text \<open>
  \<open>response.writeHead(302, {'Location': loc})\<close> with a location built from the request.
  The host checks every header value and throws \<open>ERR_INVALID_CHAR\<close>, before anything is
  sent, when it holds a code unit other than a tab, \<open>0x20\<close> to \<open>0x7E\<close> and \<open>0x80\<close> to
  \<open>0xFF\<close>.
\<close>

definition header_char_ok :: "jschar \<Rightarrow> bool" where
  "header_char_ok c \<longleftrightarrow> c = 0x9 \<or> (0x20 \<le> c \<and> c \<le> 0x7E) \<or> (0x80 \<le> c \<and> c \<le> 0xFF)"

definition writeHead_redirect :: "jsstring \<Rightarrow> error + outcome" where
  "writeHead_redirect loc =
     (if list_all header_char_ok loc then Inr (redirect loc) else Inl InvalidChar)"

section \<open>The request handler\<close>

subsection \<open>Routes answered before the body is read\<close>

definition index_route :: "host \<Rightarrow> state \<Rightarrow> request \<Rightarrow> user option \<Rightarrow> outcome" where
  "index_route h s r loggedInUser =
     (let topicId = query r (js ''id'');
          page = pageOf r;
          limit = limitOf r;
          sortKey = sortOf r
      in case sortTopics h (topics s) sortKey of
           Inl e \<Rightarrow> Uncaught e
         | Inr sortedTopics \<Rightarrow>
             (let totalTopics = int (length sortedTopics);
                  paged = pagedTopics sortedTopics page limit
              in case templatePagination totalTopics page limit of
                   Inl e \<Rightarrow> Uncaught e
                 | Inr paginationHtml \<Rightarrow>
                     if truthy topicId then
                       (case find (\<lambda>t. Finite (topic_id t) = parseInt topicId) (topics s) of
                          Some t \<Rightarrow>
                            if marked_throws h (description t) then Uncaught HostError
                            else html 200 (Index paged paginationHtml
                                   (Detail t (case loggedInUser of None \<Rightarrow> False
                                              | Some u \<Rightarrow> user_id u = author t)))
                        | None \<Rightarrow> html 200 (Index paged paginationHtml PostNotFound))
                     else html 200 (Index paged paginationHtml Intro)))"

definition create_route :: "user option \<Rightarrow> outcome" where
  "create_route loggedInUser =
     (case loggedInUser of
        None \<Rightarrow> redirect (js ''/login'')
      | Some u \<Rightarrow> html 200 CreateForm)"

definition update_route :: "state \<Rightarrow> request \<Rightarrow> user option \<Rightarrow> outcome" where
  "update_route s r loggedInUser =
     (case loggedInUser of
        None \<Rightarrow> redirect (js ''/login'')
      | Some u \<Rightarrow>
          (let topicId = parseInt (query r (js ''id'')) in
           case find (\<lambda>t. Finite (topic_id t) = topicId) (topics s) of
             None \<Rightarrow> html 403 Forbidden
           | Some t \<Rightarrow>
               if author t \<noteq> user_id u then html 403 Forbidden
               else html 200 (UpdateForm t)))"

definition login_route :: "user option \<Rightarrow> outcome" where
  "login_route loggedInUser =
     (case loggedInUser of
        Some u \<Rightarrow> redirect (js ''/'')
      | None \<Rightarrow> html 200 LoginForm)"

definition logout_process :: "state \<Rightarrow> request \<Rightarrow> outcome \<times> state" where
  "logout_process s r =
     (case parseCookies r of
        Inl e \<Rightarrow> (Uncaught e, s)
      | Inr cookies \<Rightarrow>
          (let s' = (case cookies (js ''sessionId'') of
                       None \<Rightarrow> s
                     | Some sessionId \<Rightarrow>
                         if sessionId = [] then s
                         else s\<lparr>sessions := (sessions s)(sessionId := None)\<rparr>)
           in (redirect_cookie (js ''/'') (js ''sessionId=; Path=/; Max-Age=0''), s')))"

subsection \<open>Routes answered after the body is read\<close>

text \<open>
  Each route of the \<open>try\<close> block gives what it ended in, an exception or a response,
  and the state it left: an exception thrown after the collection was changed and saved
  leaves the change in place.
\<close>

text \<open>\<open>a || b\<close> on results that may throw; \<open>b\<close> is not evaluated when \<open>a\<close> is true.\<close>

definition js_or :: "error + bool \<Rightarrow> error + bool \<Rightarrow> error + bool" where
  "js_or a b = (case a of Inl e \<Rightarrow> Inl e | Inr x \<Rightarrow> if x then Inr True else b)"

definition listBaseQuery :: "request \<Rightarrow> jsstring" where
  "listBaseQuery r =
     js ''page='' @ toString (orDefault (post r (js ''page'')) (js ''1''))
     @ js ''&limit='' @ toString (orDefault (post r (js ''limit'')) (intToString DEFAULT_ITEMS_PER_PAGE))
     @ js ''&sort='' @ toString (orDefault (post r (js ''sort'')) (js ''latest''))"

definition create_process :: "state \<Rightarrow> request \<Rightarrow> user option \<Rightarrow> (error + outcome) \<times> state" where
  "create_process s r postLoggedInUser =
     (case postLoggedInUser of
        None \<Rightarrow> (Inl NotLoggedIn, s)
      | Some u \<Rightarrow>
          (case js_or (isEmptyOrWhitespace (post r (js ''title'')))
                      (isEmptyOrWhitespace (post r (js ''description''))) of
             Inl e \<Rightarrow> (Inl e, s)
           | Inr blank \<Rightarrow>
               if blank then (Inr (html 400 BadRequest), s)
               else
                 (let newTopic = \<lparr>topic_id = nextId s,
                                  title = post r (js ''title''),
                                  description = post r (js ''description''),
                                  created_at = now r,
                                  updated_at = now r,
                                  author = user_id u\<rparr>
                  in (writeHead_redirect (js ''/?'' @ listBaseQuery r),
                      s\<lparr>topics := topics s @ [newTopic], nextId := plus_one (nextId s)\<rparr>))))"

definition update_process :: "host \<Rightarrow> state \<Rightarrow> request \<Rightarrow> user option \<Rightarrow> (error + outcome) \<times> state" where
  "update_process h s r postLoggedInUser =
     (case postLoggedInUser of
        None \<Rightarrow> (Inl NotLoggedIn, s)
      | Some u \<Rightarrow>
          (let idToUpdate = parseInt (post r (js ''id'')) in
           case array_findIndex (\<lambda>t. Finite (topic_id t) = idToUpdate) (topics s) of
             None \<Rightarrow> (Inr (html 403 Forbidden), s)
           | Some topicIndex \<Rightarrow>
               (case array_get (topics s) topicIndex of
                  None \<Rightarrow> (Inl TypeError, s)
                | Some t \<Rightarrow>
                    if author t \<noteq> user_id u then (Inr (html 403 Forbidden), s)
                    else (writeHead_redirect
                            (js ''/?id='' @ numberToString h idToUpdate @ js ''&'' @ listBaseQuery r),
                          s\<lparr>topics := (topics s)[topicIndex :=
                               t\<lparr>title := post r (js ''title''),
                                 description := post r (js ''description''),
                                 updated_at := now r\<rparr>]\<rparr>))))"

definition delete_process :: "state \<Rightarrow> request \<Rightarrow> user option \<Rightarrow> (error + outcome) \<times> state" where
  "delete_process s r postLoggedInUser =
     (case postLoggedInUser of
        None \<Rightarrow> (Inl NotLoggedIn, s)
      | Some u \<Rightarrow>
          (let idToDelete = parseInt (post r (js ''id'')) in
           case find (\<lambda>t. Finite (topic_id t) = idToDelete) (topics s) of
             None \<Rightarrow> (Inr (html 403 Forbidden), s)
           | Some topicToDelete \<Rightarrow>
               if author topicToDelete \<noteq> user_id u then (Inr (html 403 Forbidden), s)
               else (writeHead_redirect (js ''/?'' @ listBaseQuery r),
                     s\<lparr>topics := filter (\<lambda>t. Finite (topic_id t) \<noteq> idToDelete) (topics s)\<rparr>)))"

text \<open>
  Past the blank-field check each of the three fields is a single string; the last
  branch of the inner \<open>case\<close> is never taken.
\<close>

definition register_process :: "state \<Rightarrow> request \<Rightarrow> (error + outcome) \<times> state" where
  "register_process s r =
     (case js_or (isEmptyOrWhitespace (post r (js ''username'')))
                 (js_or (isEmptyOrWhitespace (post r (js ''password'')))
                        (isEmptyOrWhitespace (post r (js ''nickname'')))) of
        Inl e \<Rightarrow> (Inl e, s)
      | Inr blank \<Rightarrow>
          if blank then (Inr (html 400 BadRequest), s)
          else if list_ex (\<lambda>u. Single (username u) = post r (js ''username'')) (users s)
          then (Inr (html 409 Conflict), s)
          else
            (case (post r (js ''username''), post r (js ''password''), post r (js ''nickname'')) of
               (Single un, Single pw, Single nn) \<Rightarrow>
                 (let newUser = \<lparr>user_id = nextUserId s, username = un,
                                 password = Some pw, nickname = nn\<rparr>
                  in (Inr (redirect (js ''/login'')),
                      s\<lparr>users := users s @ [newUser], nextUserId := plus_one (nextUserId s)\<rparr>))
             | _ \<Rightarrow> (Inl TypeError, s)))"

text \<open>\<open>u.password === post.password\<close>.\<close>

fun password_eq :: "jsstring option \<Rightarrow> qval \<Rightarrow> bool" where
  "password_eq (Some p) (Single q) = (p = q)"
| "password_eq None Absent = True"
| "password_eq a b = False"

text \<open>The token \<open>generateSessionId()\<close> draws is 32 hexadecimal digits.\<close>

definition login_process :: "state \<Rightarrow> request \<Rightarrow> (error + outcome) \<times> state" where
  "login_process s r =
     (case find (\<lambda>u. Single (username u) = post r (js ''username'')
                     \<and> password_eq (password u) (post r (js ''password''))) (users s) of
        Some u \<Rightarrow>
          (let sessionId = random_token r
           in (Inr (redirect_cookie (js ''/'')
                     (js ''sessionId='' @ sessionId @ js ''; Path=/; HttpOnly; Max-Age=2592000'')),
               s\<lparr>sessions := (if sessionId = js ''__proto__'' then sessions s
                                else (sessions s)(sessionId \<mapsto> user_id u))\<rparr>))
      | None \<Rightarrow> (Inr (html 401 Unauthorized), s))"

text \<open>The body of the \<open>try\<close> block; a path none of the branches names falls out of it silently.\<close>

definition post_try :: "host \<Rightarrow> state \<Rightarrow> request \<Rightarrow> (error + outcome) \<times> state" where
  "post_try h s r =
     (case getLoggedInUser s r of
        Inl e \<Rightarrow> (Inl e, s)
      | Inr postLoggedInUser \<Rightarrow>
          if pathName r = js ''/create_process'' then create_process s r postLoggedInUser
          else if pathName r = js ''/update_process'' then update_process h s r postLoggedInUser
          else if pathName r = js ''/delete_process'' then delete_process s r postLoggedInUser
          else if pathName r = js ''/register_process'' then register_process s r
          else if pathName r = js ''/login_process'' then login_process s r
          else (Inr NoResponse, s))"

text \<open>The \<open>catch\<close> block answers 500, whatever was done before the exception.\<close>

definition post_route :: "host \<Rightarrow> state \<Rightarrow> request \<Rightarrow> outcome \<times> state" where
  "post_route h s r =
     (case post_try h s r of
        (Inl e, s') \<Rightarrow> (html 500 ServerError, s')
      | (Inr out, s') \<Rightarrow> (out, s'))"

subsection \<open>The dispatcher\<close>

definition handle :: "host \<Rightarrow> state \<Rightarrow> request \<Rightarrow> outcome \<times> state" where
  "handle h s r =
     (case getLoggedInUser s r of
        Inl e \<Rightarrow> (Uncaught e, s)
      | Inr loggedInUser \<Rightarrow>
          if pathName r = js ''/'' then (index_route h s r loggedInUser, s)
          else if pathName r = js ''/create'' then (create_route loggedInUser, s)
          else if pathName r = js ''/update'' then (update_route s r loggedInUser, s)
          else if pathName r = js ''/login'' then (login_route loggedInUser, s)
          else if pathName r = js ''/register'' then (html 200 RegisterForm, s)
          else if pathName r = js ''/logout_process'' then logout_process s r
          else if request_method r = js ''POST'' then post_route h s r
          else (html 404 NotFound, s))"

text \<open>The server after a sequence of requests, each handled to completion.\<close>

fun run :: "host \<Rightarrow> state \<Rightarrow> request list \<Rightarrow> state" where
  "run h s [] = s"
| "run h s (r # rs) = run h (snd (handle h s r)) rs"

text \<open>The status line of an outcome, if there is one.\<close>

fun status_of :: "outcome \<Rightarrow> nat option" where
  "status_of (Responded resp) = Some (status resp)"
| "status_of NoResponse = None"
| "status_of (Uncaught e) = None"

section \<open>Predicates used in the statements\<close>

text \<open>A form field the blank check rejects, and one that was sent more than once.\<close>

definition is_blank :: "qval \<Rightarrow> bool" where
  "is_blank v \<longleftrightarrow> isEmptyOrWhitespace v = Inr True"

definition repeated :: "qval \<Rightarrow> bool" where
  "repeated v \<longleftrightarrow> (case v of Multi ss \<Rightarrow> True | _ \<Rightarrow> False)"

text \<open>A number that is infinite or at least \<open>n\<close>.\<close>

definition at_least :: "int \<Rightarrow> jsnum \<Rightarrow> bool" where
  "at_least n x \<longleftrightarrow> js_le (Finite n) x"

text \<open>Every post id in the collection lies below the counter.\<close>

definition ids_below_counter :: "state \<Rightarrow> bool" where
  "ids_below_counter s \<longleftrightarrow> (\<forall>t \<in> set (topics s). topic_id t < nextId s)"

text \<open>
  What one request can do to the post collection and its counter: nothing, append a
  post numbered by the counter, rewrite posts keeping their ids, or remove posts.
\<close>

definition topics_step :: "state \<Rightarrow> state \<Rightarrow> bool" where
  "topics_step s s' \<longleftrightarrow>
     (topics s' = topics s \<and> nextId s' = nextId s)
   \<or> (\<exists>new. topics s' = topics s @ [new] \<and> topic_id new = nextId s \<and> nextId s' = plus_one (nextId s))
   \<or> (nextId s' = nextId s \<and> map topic_id (topics s') = map topic_id (topics s))
   \<or> (nextId s' = nextId s \<and> (\<exists>P. topics s' = filter P (topics s)))"

section \<open>Example data\<close>

definition example_host :: host where
  "example_host = \<lparr>sort_title_asc = (\<lambda>ts. Inr ts), marked_throws = (\<lambda>d. False),
                    number_digits = intToString\<rparr>"

definition alice :: user where
  "alice = \<lparr>user_id = 1, username = js ''alice1'', password = Some (js ''pw''), nickname = js ''Alice''\<rparr>"

definition bob :: user where
  "bob = \<lparr>user_id = 2, username = js ''bob22'', password = Some (js ''secret''), nickname = js ''Bob''\<rparr>"

definition notice :: topic where
  "notice = \<lparr>topic_id = 1, title = Single (js ''Notice''), description = Single (js ''Read me''),
             created_at = 1000, updated_at = 1000, author = 0\<rparr>"

definition hello :: topic where
  "hello = \<lparr>topic_id = 2, title = Single (js ''Hello''), description = Single (js ''World''),
            created_at = 2000, updated_at = 2000, author = 1\<rparr>"

definition example_state :: state where
  "example_state = \<lparr>topics = [notice, hello], users = [alice, bob], nextId = 3, nextUserId = 3,
                     sessions = [js ''a1'' \<mapsto> 1, js ''b2'' \<mapsto> 2]\<rparr>"

definition form :: "(string \<times> string) list \<Rightarrow> jsstring \<Rightarrow> qval" where
  "form kvs key =
     (case map_of (map (\<lambda>(k, v). (js k, js v)) kvs) key of
        None \<Rightarrow> Absent
      | Some v \<Rightarrow> Single v)"

definition example_request ::
  "string \<Rightarrow> string \<Rightarrow> string option \<Rightarrow> (string \<times> string) list \<Rightarrow> (string \<times> string) list \<Rightarrow> request" where
  "example_request m p c q b =
     \<lparr>request_method = js m, pathName = js p, query = form q, headers_cookie = map_option js c,
      post = form b, now = 5000, random_token = js ''0123456789abcdef0123456789abcdef''\<rparr>"

definition login_alice :: request where
  "login_alice = example_request ''POST'' ''/login_process'' None []
                   [(''username'', ''alice1''), (''password'', ''pw'')]"

definition create_hello :: request where
  "create_hello = example_request ''POST'' ''/create_process''
                    (Some ''sessionId=0123456789abcdef0123456789abcdef'') []
                    [(''title'', ''Hello''), (''description'', ''World'')]"

definition example_run :: "request list" where
  "example_run = [login_alice, create_hello]"



definition register_taken_blank_password :: request where
  "register_taken_blank_password = example_request ''POST'' ''/register_process'' None []
       [(''username'', ''alice1''), (''password'', []), (''nickname'', ''Al'')]"

definition register_taken :: request where
  "register_taken = example_request ''POST'' ''/register_process'' None []
       [(''username'', ''alice1''), (''password'', ''x''), (''nickname'', ''Al'')]"

definition register_short_name :: request where
  "register_short_name = example_request ''POST'' ''/register_process'' None []
       [(''username'', ''a!''), (''password'', ''x''), (''nickname'', ''Al'')]"

definition alice_blanks_hello :: request where
  "alice_blanks_hello = example_request ''POST'' ''/update_process'' (Some ''sessionId=a1'') []
       [(''id'', ''2''), (''title'', []), (''description'', ''  '')]"

definition alice_creates_blank :: request where
  "alice_creates_blank = example_request ''POST'' ''/create_process'' (Some ''sessionId=a1'') []
       [(''title'', ''  ''), (''description'', ''text'')]"

definition malformed_cookie :: request where
  "malformed_cookie = example_request ''GET'' ''/'' (Some ''lang=%'') [] []"

definition post_unknown_path :: request where
  "post_unknown_path = example_request ''POST'' ''/nope'' None [] []"

definition zero_paging :: request where
  "zero_paging = example_request ''GET'' ''/'' None [(''page'', ''0''), (''limit'', ''0'')] []"

definition example_store :: store where
  "example_store = \<lparr>cells = [0 \<mapsto> [notice, hello]], next_ref = 1\<rparr>"

definition alice_deletes_hello :: request where
  "alice_deletes_hello = example_request ''POST'' ''/delete_process''
                           (Some ''sessionId=0123456789abcdef0123456789abcdef'') [] [(''id'', ''2'')]"

definition alice_updates_with_line_feed :: request where
  "alice_updates_with_line_feed = example_request ''POST'' ''/update_process'' (Some ''sessionId=a1'') []
       [(''id'', ''2''), (''title'', []), (''description'', ''  ''), (''page'', [CHR 0x0A])]"

definition huge_limit :: request where
  "huge_limit = example_request ''GET'' ''/'' None [(''limit'', CHR ''1'' # replicate 309 (CHR ''0''))] []"

section \<open>Facts about the building blocks\<close>

lemma array_get_Some: "array_get xs i = Some x \<longleftrightarrow> i < length xs \<and> xs ! i = x"
  by (induction xs i rule: array_get.induct) auto

lemma map_update_same: "i < length xs \<Longrightarrow> (map f xs)[i := f (xs ! i)] = map f xs"
  by (metis list_update_id nth_map)

lemma math_max_ge: "x \<in> set xs \<Longrightarrow> x \<le> math_max xs"
  by (induction xs rule: math_max.induct) auto

lemma math_max_Max: "xs \<noteq> [] \<Longrightarrow> math_max xs = Max (set xs)"
  by (induction xs rule: math_max.induct) (auto simp: max_def Max_insert)

lemma math_max_in: "xs \<noteq> [] \<Longrightarrow> math_max xs \<in> set xs"
  by (induction xs rule: math_max.induct) (auto simp: max_def)

lemma not_repeated_cases: "\<not> repeated v \<Longrightarrow> isEmptyOrWhitespace v = Inr (is_blank v)"
  by (cases v) (auto simp: repeated_def is_blank_def)

lemma paths_distinct:
  "js ''/update'' \<noteq> js ''/''" "js ''/update'' \<noteq> js ''/create''"
  "js ''/delete_process'' \<noteq> js ''/''" "js ''/delete_process'' \<noteq> js ''/create''"
  "js ''/delete_process'' \<noteq> js ''/update''" "js ''/delete_process'' \<noteq> js ''/login''"
  "js ''/delete_process'' \<noteq> js ''/register''" "js ''/delete_process'' \<noteq> js ''/logout_process''"
  "js ''/delete_process'' \<noteq> js ''/create_process''" "js ''/delete_process'' \<noteq> js ''/update_process''"
  "js ''/register_process'' \<noteq> js ''/''" "js ''/register_process'' \<noteq> js ''/create''"
  "js ''/register_process'' \<noteq> js ''/update''" "js ''/register_process'' \<noteq> js ''/login''"
  "js ''/register_process'' \<noteq> js ''/register''" "js ''/register_process'' \<noteq> js ''/logout_process''"
  "js ''/register_process'' \<noteq> js ''/create_process''" "js ''/register_process'' \<noteq> js ''/update_process''"
  "js ''/register_process'' \<noteq> js ''/delete_process''"
  "js ''/update_process'' \<noteq> js ''/''" "js ''/update_process'' \<noteq> js ''/create''"
  "js ''/update_process'' \<noteq> js ''/update''" "js ''/update_process'' \<noteq> js ''/login''"
  "js ''/update_process'' \<noteq> js ''/register''" "js ''/update_process'' \<noteq> js ''/logout_process''"
  "js ''/update_process'' \<noteq> js ''/create_process''"
  "js ''/create_process'' \<noteq> js ''/''" "js ''/create_process'' \<noteq> js ''/create''"
  "js ''/create_process'' \<noteq> js ''/update''" "js ''/create_process'' \<noteq> js ''/login''"
  "js ''/create_process'' \<noteq> js ''/register''" "js ''/create_process'' \<noteq> js ''/logout_process''"
  by (simp_all add: js_def)

lemma numOr_cases: "d \<noteq> NotANumber \<Longrightarrow> d \<noteq> Finite 0 \<Longrightarrow> numOr n d \<noteq> NotANumber \<and> numOr n d \<noteq> Finite 0"
  by (simp add: numOr_def)

subsection \<open>Rounding to a double\<close>

lemma round_double_exact: "\<bar>x\<bar> \<le> 2 ^ 53 \<Longrightarrow> round_double x = x"
  by (simp add: round_double_def)

lemma to_double_exact:
  assumes "\<bar>x\<bar> \<le> 2 ^ 53"
  shows "to_double x = Finite x"
proof -
  have "(2::int) ^ 53 < 2 ^ 1024" by simp
  then have "\<not> 2 ^ 1024 \<le> \<bar>x\<bar>" using assms by linarith
  then show ?thesis using assms by (simp add: to_double_def round_double_exact)
qed

lemma plus_one_exact: "- (2 ^ 53) < n \<Longrightarrow> n < 2 ^ 53 \<Longrightarrow> plus_one n = n + 1"
  by (simp add: plus_one_def round_double_exact)

lemma round_double_big:
  assumes "2 ^ 53 < x"
  shows "2 ^ 53 \<le> round_double x"
proof -
  let ?b = "bitlen x"
  let ?k = "nat (?b - 54)"
  let ?q = "(2::int) ^ nat (?b - 53)"
  have x0: "0 < x" using assms by (smt (verit) zero_less_power)
  have b54: "54 \<le> ?b"
    using assms by (simp add: bitlen_ge_iff_power)
  have k1: "nat (?b - 53) = Suc ?k" using b54 by linarith
  have k2: "nat (?b - 1) = 52 + Suc ?k" using b54 by linarith
  have q2: "2 \<le> ?q" unfolding k1 by simp
  have q0: "0 < ?q" by simp
  have "2 ^ nat (?b - 1) \<le> x" using bitlen_bounds [OF x0] by simp
  then have lower: "2 ^ 52 * ?q \<le> x" unfolding k1 k2 by (simp add: power_add)
  have "(2 ^ 52 * ?q) div ?q \<le> x div ?q"
    using lower q0 by (intro zdiv_mono1) auto
  then have m: "2 ^ 52 \<le> x div ?q" by simp
  have a: "2 ^ 52 * ?q \<le> (x div ?q) * ?q" using m q0 by (intro mult_right_mono) auto
  have b: "(x div ?q) * ?q \<le> (x div ?q + 1) * ?q" using q0 by (simp add: distrib_right)
  have c: "(2::int) ^ 53 \<le> 2 ^ 52 * ?q" using q2 by simp
  have "2 ^ 53 \<le> (x div ?q) * ?q" "2 ^ 53 \<le> (x div ?q + 1) * ?q" using a b c by linarith+
  then show ?thesis
    using assms x0 by (simp add: round_double_def Let_def)
qed

lemma to_double_big:
  assumes "2 ^ 53 < x"
  shows "to_double x = Infinity \<or> (\<exists>y. to_double x = Finite y \<and> 2 ^ 53 \<le> y)"
proof -
  have "0 < x" using assms by (smt (verit) zero_less_power)
  then show ?thesis
    using round_double_big [OF assms] by (auto simp: to_double_def)
qed

lemma two_powers: "(2::int) ^ 32 < 2 ^ 53" "(2::int) ^ 32 \<le> 2 ^ 53 - 2 ^ 32"
  by simp_all

lemma at_least_iff: "at_least n x \<longleftrightarrow> x = Infinity \<or> (\<exists>y. x = Finite y \<and> n \<le> y)"
  by (cases x) (simp_all add: at_least_def)

lemma to_double_at_least:
  assumes "n \<le> 2 ^ 53" "0 \<le> x" "n \<le> x"
  shows "at_least n (to_double x)"
proof (cases "x \<le> 2 ^ 53")
  case True
  then have "to_double x = Finite x" using assms by (intro to_double_exact) simp
  then show ?thesis using assms by (simp add: at_least_iff)
next
  case False
  then have "2 ^ 53 < x" by simp
  from to_double_big [OF this] show ?thesis
    using assms(1) by (auto simp: at_least_iff)
qed

text \<open>
  At \<open>2 ^ 53\<close> the counter stops: \<open>nextId++\<close> leaves it where it was, and the next post
  gets the same id again.
\<close>

lemma counter_stalls: "plus_one (2 ^ 53) = 2 ^ 53"
  by code_simp

subsection \<open>The page count\<close>

text \<open>
  The quotient \<open>totalTopics / limit\<close> is rounded to a double before \<open>Math.ceil\<close> is
  applied. The rounding moves it by half a unit in the last place at most, which for
  an array length and a finite limit is less than its distance to the next integer.
\<close>

lemma pw2_powi: "(if 0 \<le> e then 2 ^ nat e else 1 / 2 ^ nat (- e)) = (2::rat) powi e"
  by (simp add: power_int_def power_inverse [symmetric] inverse_eq_divide power_one_over)

lemma exponent_below:
  fixes a :: rat
  assumes "0 < a"
  shows "2 powi (if 1 \<le> a then bitlen \<lfloor>a\<rfloor> - 1 else - bitlen (\<lceil>1 / a\<rceil> - 1)) \<le> a"
proof (cases "1 \<le> a")
  case True
  then have pos: "0 < \<lfloor>a\<rfloor>" by linarith
  have b: "2 ^ nat (bitlen \<lfloor>a\<rfloor> - 1) \<le> \<lfloor>a\<rfloor>" using bitlen_bounds [OF pos] by simp
  have "1 \<le> bitlen \<lfloor>a\<rfloor>" using pos by (simp add: bitlen_ge_iff_power)
  then have nn: "0 \<le> bitlen \<lfloor>a\<rfloor> - 1" by simp
  have "(2::rat) powi (bitlen \<lfloor>a\<rfloor> - 1) = of_int (2 ^ nat (bitlen \<lfloor>a\<rfloor> - 1))"
    using nn by (simp add: power_int_def)
  also have "\<dots> \<le> of_int \<lfloor>a\<rfloor>" using b by (simp only: of_int_le_iff)
  also have "\<dots> \<le> a" by simp
  finally show ?thesis using True by simp
next
  case False
  define c where "c = \<lceil>1 / a\<rceil>"
  have "1 < 1 / a" using False assms by simp
  then have c2: "2 \<le> c" unfolding c_def by linarith
  then have pos: "0 < c - 1" by simp
  have "c - 1 < 2 ^ nat (bitlen (c - 1))" using bitlen_bounds [OF pos] by simp
  then have "c \<le> 2 ^ nat (bitlen (c - 1))" by simp
  then have "(of_int c :: rat) \<le> of_int (2 ^ nat (bitlen (c - 1)))" by (simp only: of_int_le_iff)
  then have "(of_int c :: rat) \<le> 2 ^ nat (bitlen (c - 1))" by simp
  moreover have "1 / a \<le> of_int c" unfolding c_def by simp
  ultimately have "1 / a \<le> 2 ^ nat (bitlen (c - 1))" by (rule order_trans [rotated])
  then have "1 / 2 ^ nat (bitlen (c - 1)) \<le> a"
    using assms by (simp add: field_simps)
  moreover have "0 \<le> bitlen (c - 1)" by (simp add: bitlen_def)
  then have "(2::rat) powi (- bitlen (c - 1)) = 1 / 2 ^ nat (bitlen (c - 1))"
    by (simp add: power_int_def power_inverse [symmetric] inverse_eq_divide power_one_over)
  ultimately show ?thesis using False by (simp add: c_def)
qed

lemma round_rat_close:
  assumes "x \<noteq> 0"
  shows "\<exists>u. 0 < u \<and> (u \<le> \<bar>x\<bar> / 2 ^ 52 \<or> u = 1 / 2 ^ 1074) \<and> \<bar>round_rat x - x\<bar> \<le> u / 2"
proof -
  define a where "a = \<bar>x\<bar>"
  define E where "E = (if 1 \<le> a then bitlen \<lfloor>a\<rfloor> - 1 else - bitlen (\<lceil>1 / a\<rceil> - 1))"
  define e where "e = max (E - 52) (- 1074)"
  define u where "u = (2::rat) powi e"
  define m where "m = a / u"
  define f where "f = \<lfloor>m\<rfloor>"
  define d where "d = m - of_int f"
  define m' where "m' = (if d < 1 / 2 \<or> (d = 1 / 2 \<and> even f) then f else f + 1)"
  have a0: "0 < a" using assms by (simp add: a_def)
  have u0: "0 < u" by (simp add: u_def)
  have r: "round_rat x = sgn x * of_int m' * u"
    using assms
    unfolding round_rat_def Let_def pw2_powi m'_def d_def f_def m_def u_def e_def E_def a_def
    by (simp only: if_False)
  have d01: "0 \<le> d" "d < 1" unfolding d_def f_def by linarith+
  have close: "\<bar>of_int m' - m\<bar> \<le> 1 / 2"
  proof (cases "d < 1 / 2 \<or> (d = 1 / 2 \<and> even f)")
    case True
    then have "m' = f" by (simp add: m'_def)
    moreover have "d \<le> 1 / 2" using True by auto
    ultimately show ?thesis using d01 by (simp add: d_def)
  next
    case False
    then have "m' = f + 1" by (simp add: m'_def)
    moreover have "1 / 2 \<le> d" using False by auto
    ultimately show ?thesis using d01 by (simp add: d_def)
  qed
  have "sgn x * \<bar>x\<bar> = x" by (simp add: sgn_mult_abs)
  then have x: "x = sgn x * m * u" using u0 by (simp add: m_def a_def)
  have "round_rat x - x = sgn x * u * (of_int m' - m)"
    by (subst x, subst r) (simp add: algebra_simps)
  then have "\<bar>round_rat x - x\<bar> = u * \<bar>of_int m' - m\<bar>"
    using assms u0 by (simp add: abs_mult)
  also have "\<dots> \<le> u * (1 / 2)" using close u0 by (intro mult_left_mono) simp_all
  finally have c: "\<bar>round_rat x - x\<bar> \<le> u / 2" by simp
  have b: "u \<le> \<bar>x\<bar> / 2 ^ 52 \<or> u = 1 / 2 ^ 1074"
  proof (cases "- 1074 \<le> E - 52")
    case True
    then have "e = E - 52" by (simp add: e_def)
    then have "u = 2 powi E / 2 ^ 52" by (simp add: u_def power_int_diff)
    moreover have "2 powi E \<le> a" unfolding E_def by (rule exponent_below [OF a0])
    ultimately show ?thesis by (simp add: a_def divide_right_mono)
  next
    case False
    then have "e = - 1074" by (simp add: e_def)
    then have "u = 1 / 2 ^ 1074"
      by (simp add: u_def power_int_def power_inverse [symmetric] inverse_eq_divide power_one_over)
    then show ?thesis by simp
  qed
  show ?thesis using u0 b c by blast
qed

lemma round_rat_int:
  assumes "n \<noteq> 0" "\<bar>n\<bar> < 2 ^ 53"
  shows "round_rat (of_int n) = of_int n"
proof -
  define x where "x = (of_int n :: rat)"
  define a where "a = \<bar>x\<bar>"
  define E where "E = (if 1 \<le> a then bitlen \<lfloor>a\<rfloor> - 1 else - bitlen (\<lceil>1 / a\<rceil> - 1))"
  define e where "e = max (E - 52) (- 1074)"
  define u where "u = (2::rat) powi e"
  define m where "m = a / u"
  define f where "f = \<lfloor>m\<rfloor>"
  define d where "d = m - of_int f"
  define m' where "m' = (if d < 1 / 2 \<or> (d = 1 / 2 \<and> even f) then f else f + 1)"
  define k where "k = nat (53 - bitlen \<bar>n\<bar>)"
  have nz: "x \<noteq> 0" using assms(1) by (simp add: x_def)
  have r: "round_rat x = sgn x * of_int m' * u"
    using nz
    unfolding round_rat_def Let_def pw2_powi m'_def d_def f_def m_def u_def e_def E_def a_def
    by (simp only: if_False)
  have a: "a = of_int \<bar>n\<bar>" by (simp add: a_def x_def)
  have pos: "0 < \<bar>n\<bar>" using assms(1) by simp
  then have "1 \<le> \<bar>n\<bar>" by linarith
  then have a1: "1 \<le> a" unfolding a by (simp only: of_int_1_le_iff)
  have fl: "\<lfloor>a\<rfloor> = \<bar>n\<bar>" unfolding a by (rule floor_of_int)
  have b1: "1 \<le> bitlen \<bar>n\<bar>" using pos by (simp add: bitlen_ge_iff_power)
  have b53: "bitlen \<bar>n\<bar> \<le> 53" using assms(2) by (simp add: bitlen_le_iff_power)
  have "E = bitlen \<bar>n\<bar> - 1" using a1 by (simp add: E_def fl)
  then have e: "e = - int k" using b1 b53 by (simp add: e_def k_def)
  have u: "u = 1 / 2 ^ k"
    unfolding u_def e
    by (simp add: power_int_def power_inverse [symmetric] inverse_eq_divide power_one_over)
  have m: "m = of_int (\<bar>n\<bar> * 2 ^ k)" unfolding m_def u a by simp
  have f: "f = \<bar>n\<bar> * 2 ^ k" unfolding f_def m by (rule floor_of_int)
  have "d = 0" unfolding d_def m f by simp
  then have "m' = f" by (simp add: m'_def)
  then have "round_rat x = sgn x * of_int (\<bar>n\<bar> * 2 ^ k) * (1 / 2 ^ k)"
    unfolding r f u by simp
  also have "\<dots> = sgn x * a" unfolding a by simp
  also have "\<dots> = x" unfolding a_def by (simp add: sgn_mult_abs)
  finally show ?thesis unfolding x_def .
qed

lemma ceil_quotient_exact:
  assumes "0 \<le> n" "n < 2 ^ 53" "l \<noteq> 0" "\<bar>l\<bar> < 2 ^ 1024"
  shows "ceil_quotient n l = Finite (- ((- n) div l))"
proof -
  define x where "x = (of_int n / of_int l :: rat)"
  define K where "K = \<lceil>x\<rceil>"
  have K: "K = - ((- n) div l)" unfolding K_def x_def by (rule ceiling_divide_eq_div)
  have l1: "(1::rat) \<le> \<bar>of_int l\<bar>" using assms(3) by (simp flip: of_int_abs)
  have ax: "\<bar>x\<bar> \<le> of_int n"
  proof -
    have "\<bar>x\<bar> = of_int n / \<bar>of_int l\<bar>" using assms(1) by (simp add: x_def)
    also have "\<dots> \<le> of_int n / 1" using l1 assms(1) by (intro divide_left_mono) simp_all
    finally show ?thesis by simp
  qed
  have n53: "(of_int n :: rat) < 2 ^ 53" using assms(2) by (metis of_int_less_iff of_int_numeral of_int_power)
  have p: "(2::rat) ^ 53 + 1 < 2 ^ 1024" by simp
  have goal: "\<bar>round_rat x\<bar> < 2 ^ 1024 \<and> \<lceil>round_rat x\<rceil> = K"
  proof (cases "x = 0")
    case True
    then show ?thesis by (simp add: round_rat_def K_def)
  next
    case nz: False
    show ?thesis
    proof (cases "\<exists>j::int. x = of_int j")
      case True
      then obtain j :: int where j: "x = of_int j" by blast
      have "j \<noteq> 0" using nz j by simp
      moreover have "\<bar>j\<bar> < 2 ^ 53"
      proof -
        have "(of_int \<bar>j\<bar> :: rat) < 2 ^ 53" using ax n53 j by simp
        then show ?thesis by (metis of_int_less_iff of_int_numeral of_int_power)
      qed
      ultimately have "round_rat x = x" unfolding j by (rule round_rat_int)
      then show ?thesis using ax n53 p by (simp add: K_def)
    next
      case False
      obtain u where u0: "0 < u" and ub: "u \<le> \<bar>x\<bar> / 2 ^ 52 \<or> u = 1 / 2 ^ 1074"
          and close: "\<bar>round_rat x - x\<bar> \<le> u / 2"
        using round_rat_close [OF nz] by blast
      define L where "L = \<bar>of_int l :: rat\<bar>"
      have Ll: "of_int \<bar>l\<bar> = L" by (simp add: L_def)
      have L1: "1 \<le> L" using l1 by (simp add: L_def)
      have "(of_int \<bar>l\<bar> :: rat) < 2 ^ 1024" using assms(4)
        by (metis of_int_less_iff of_int_numeral of_int_power)
      then have Lb: "L < 2 ^ 1024" by (simp only: Ll)
      have uL: "u * L < 2"
        using ub
      proof
        assume "u \<le> \<bar>x\<bar> / 2 ^ 52"
        then have "u * L \<le> \<bar>x\<bar> / 2 ^ 52 * L" using L1 by (intro mult_right_mono) simp_all
        also have "\<bar>x\<bar> * L = of_int n" using assms(1,3) by (simp add: x_def L_def)
        then have "\<bar>x\<bar> / 2 ^ 52 * L = of_int n / 2 ^ 52" by (simp add: field_simps)
        also have "\<dots> < 2" using n53 by simp
        finally show ?thesis .
      next
        assume "u = 1 / 2 ^ 1074"
        then have "u * L = L / 2 ^ 1074" by simp
        also have "\<dots> < 2 ^ 1024 / 2 ^ 1074" using Lb by (intro divide_strict_right_mono) simp_all
        also have "\<dots> < 2" by simp
        finally show ?thesis .
      qed
      then have half: "u / 2 < 1 / L" using L1 by (simp add: field_simps)
      obtain z :: int where z: "x * L = of_int z"
      proof
        show "x * L = of_int (sgn l * n)" using assms(3) by (simp add: x_def L_def sgn_if)
      qed
      have lo: "of_int (K - 1) < x" and hi: "x < of_int K"
      proof -
        show "of_int (K - 1) < x" unfolding K_def by linarith
        have "x \<le> of_int K" unfolding K_def by linarith
        moreover have "x \<noteq> of_int K" using False by blast
        ultimately show "x < of_int K" by simp
      qed
      have L0: "0 < L" using L1 by linarith
      have "of_int (K - 1) * L < x * L"
        using lo L0 by (rule mult_strict_right_mono)
      then have "of_int ((K - 1) * \<bar>l\<bar>) < x * L" by (simp only: of_int_mult Ll)
      then have "(K - 1) * \<bar>l\<bar> < z" unfolding z by (simp only: of_int_less_iff)
      then have "(K - 1) * \<bar>l\<bar> + 1 \<le> z" by simp
      then have "(of_int ((K - 1) * \<bar>l\<bar> + 1) :: rat) \<le> of_int z" by (simp only: of_int_le_iff)
      then have "of_int (K - 1) * L + 1 \<le> x * L" by (simp only: z of_int_mult of_int_add of_int_1 Ll)
      then have "(of_int (K - 1) * L + 1) / L \<le> x * L / L"
        using L0 by (intro divide_right_mono) simp_all
      then have gap_lo: "of_int K - 1 + 1 / L \<le> x" using L0 by (simp add: field_simps)
      have "x * L < of_int K * L"
        using hi L0 by (rule mult_strict_right_mono)
      then have "x * L < of_int (K * \<bar>l\<bar>)" by (simp only: of_int_mult Ll)
      then have "z < K * \<bar>l\<bar>" unfolding z by (simp only: of_int_less_iff)
      then have "z + 1 \<le> K * \<bar>l\<bar>" by simp
      then have "(of_int (z + 1) :: rat) \<le> of_int (K * \<bar>l\<bar>)" by (simp only: of_int_le_iff)
      then have "x * L + 1 \<le> of_int K * L" by (simp only: z of_int_mult of_int_add of_int_1 Ll)
      then have "(x * L + 1) / L \<le> of_int K * L / L"
        using L0 by (intro divide_right_mono) simp_all
      then have gap_hi: "x + 1 / L \<le> of_int K" using L0 by (simp add: field_simps)
      have r1: "of_int K - 1 < round_rat x" using close half gap_lo by linarith
      have r2: "round_rat x \<le> of_int K" using close half gap_hi by linarith
      have c: "\<lceil>round_rat x\<rceil> = K" using r1 r2 by (simp add: ceiling_eq_iff)
      have "1 / L \<le> 1" using L1 by simp
      then have "\<bar>round_rat x\<bar> \<le> \<bar>x\<bar> + 1" using close half by linarith
      then have "\<bar>round_rat x\<bar> < 2 ^ 1024" using ax n53 p by linarith
      then show ?thesis using c by simp
    qed
  qed
  have "\<not> 2 ^ 1024 \<le> \<bar>round_rat x\<bar>" using goal by simp
  then show ?thesis
    using goal K unfolding ceil_quotient_def Let_def x_def [symmetric] by simp
qed

lemma totalPagesOf_is_rounded_ceiling:
  assumes "0 \<le> totalTopics" "totalTopics < 2 ^ 53"
      and "\<forall>l. limit = Finite l \<longrightarrow> \<bar>l\<bar> < 2 ^ 1024"
  shows "totalPagesOf totalTopics limit = js_ceil_div (Finite totalTopics) limit"
proof (cases limit)
  case (Finite l)
  show ?thesis
  proof (cases "l = 0")
    case True
    then show ?thesis using Finite by (simp add: totalPagesOf_def js_ceil_div_def)
  next
    case False
    have "\<bar>l\<bar> < 2 ^ 1024" using assms(3) Finite by simp
    then have "ceil_quotient totalTopics l = Finite (- ((- totalTopics) div l))"
      using assms(1,2) False by (intro ceil_quotient_exact)
    then show ?thesis using Finite False by (simp add: totalPagesOf_def js_ceil_div_def)
  qed
qed (simp_all add: totalPagesOf_def js_ceil_div_def)

subsection \<open>Slices\<close>

lemma slice_past_end:
  assumes "at_least (int (length xs)) start"
  shows "array_slice xs start stop = []"
proof -
  have "relative_index (length xs) start = length xs"
    using assms by (auto simp: at_least_iff relative_index_def)
  then show ?thesis by (simp add: array_slice_def)
qed

lemma slice_to_end:
  assumes "0 \<le> s" "at_least (int (length xs)) stop"
  shows "array_slice xs (Finite s) stop = drop (nat s) xs"
proof -
  have f: "relative_index (length xs) stop = length xs"
    using assms by (auto simp: at_least_iff relative_index_def)
  have k: "relative_index (length xs) (Finite s) = min (nat s) (length xs)"
    using assms by (simp add: relative_index_def min_def) linarith
  show ?thesis
  proof (cases "nat s \<le> length xs")
    case True
    then show ?thesis by (simp add: array_slice_def f k min_def)
  next
    case False
    then show ?thesis by (simp add: array_slice_def f k min_def)
  qed
qed

lemma slice_window:
  assumes "0 \<le> s" "0 \<le> l"
  shows "array_slice xs (Finite s) (Finite (s + l)) = take (nat l) (drop (nat s) xs)"
proof -
  have k: "relative_index (length xs) (Finite s) = min (nat s) (length xs)"
    using assms by (simp add: relative_index_def min_def) linarith
  have f: "relative_index (length xs) (Finite (s + l)) = min (nat s + nat l) (length xs)"
    using assms by (simp add: relative_index_def min_def) linarith
  show ?thesis
  proof (cases "nat s \<le> length xs")
    case False
    then show ?thesis by (simp add: array_slice_def f k min_def)
  next
    case True
    show ?thesis
    proof (cases "nat s + nat l \<le> length xs")
      case True
      then show ?thesis using \<open>nat s \<le> length xs\<close> by (simp add: array_slice_def f k min_def)
    next
      case False
      then have "length (drop (nat s) xs) \<le> nat l" by simp
      then have "take (nat l) (drop (nat s) xs) = drop (nat s) xs" by simp
      then show ?thesis using False \<open>nat s \<le> length xs\<close> by (simp add: array_slice_def f k min_def)
    qed
  qed
qed

lemma pagedTopics_in_range:
  assumes l: "1 \<le> l" and p: "1 \<le> p" and inside: "(p - 1) * l < int (length xs)"
      and len: "length xs < 2 ^ 32"
  shows "pagedTopics xs (Finite p) (Finite l) = take (nat l) (drop (nat (p - 1) * nat l) xs)"
proof -
  let ?s = "(p - 1) * l"
  have n32: "int (length xs) < 2 ^ 32" using len by (metis of_nat_less_numeral_power_cancel_iff)
  have s0: "0 \<le> ?s" using l p by simp
  have "p - 1 \<le> ?s" using l p by (metis mult.right_neutral mult_left_mono diff_ge_0_iff_ge)
  then have p53: "\<bar>p - 1\<bar> \<le> 2 ^ 53" using p inside n32 two_powers by linarith
  have s53: "\<bar>?s\<bar> \<le> 2 ^ 53" using s0 inside n32 two_powers by linarith
  have sub: "js_sub (Finite p) (Finite 1) = Finite (p - 1)"
    using to_double_exact [OF p53] by (simp add: js_sub_def)
  have mul: "js_mul (Finite (p - 1)) (Finite l) = Finite ?s"
    using to_double_exact [OF s53] by (simp add: js_mul_def)
  have nat_s: "nat ?s = nat (p - 1) * nat l" using l p by (simp add: nat_mult_distrib)
  have "array_slice xs (Finite ?s) (js_add (Finite ?s) (Finite l)) = take (nat l) (drop (nat ?s) xs)"
  proof (cases "?s + l \<le> 2 ^ 53")
    case True
    then have "\<bar>?s + l\<bar> \<le> 2 ^ 53" using s0 l by linarith
    then have "js_add (Finite ?s) (Finite l) = Finite (?s + l)"
      by (simp add: to_double_exact)
    then show ?thesis using slice_window [of ?s l xs] s0 l by simp
  next
    case False
    then have big: "2 ^ 53 < ?s + l" by simp
    have "at_least (2 ^ 53) (js_add (Finite ?s) (Finite l))"
      using to_double_big [OF big] by (auto simp: at_least_iff)
    then have "at_least (int (length xs)) (js_add (Finite ?s) (Finite l))"
      using n32 two_powers by (auto simp: at_least_iff)
    then have "array_slice xs (Finite ?s) (js_add (Finite ?s) (Finite l)) = drop (nat ?s) xs"
      using s0 by (intro slice_to_end)
    moreover have "int (length xs) \<le> l" using big inside n32 two_powers by linarith
    then have "length (drop (nat ?s) xs) \<le> nat l" by simp
    then have "take (nat l) (drop (nat ?s) xs) = drop (nat ?s) xs" by simp
    ultimately show ?thesis by simp
  qed
  then show ?thesis
    by (simp add: pagedTopics_def Let_def sub mul nat_s)
qed

lemma pagedTopics_beyond:
  assumes l: "1 \<le> l" and p: "1 \<le> p" and outside: "int (length xs) \<le> (p - 1) * l"
      and len: "length xs < 2 ^ 32"
  shows "pagedTopics xs (Finite p) (Finite l) = []"
proof -
  let ?n = "int (length xs)"
  have n32: "?n < 2 ^ 32" using len by (metis of_nat_less_numeral_power_cancel_iff)
  have n53: "?n \<le> 2 ^ 53" using n32 two_powers by linarith
  have start: "at_least ?n (js_mul (js_sub (Finite p) (Finite 1)) (Finite l))"
  proof (cases "p - 1 \<le> 2 ^ 53")
    case True
    then have "\<bar>p - 1\<bar> \<le> 2 ^ 53" using p by linarith
    then have "js_sub (Finite p) (Finite 1) = Finite (p - 1)"
      using to_double_exact [of "p - 1"] by (simp add: js_sub_def)
    moreover have "at_least ?n (to_double ((p - 1) * l))"
      using outside n53 by (intro to_double_at_least) auto
    ultimately show ?thesis by (simp add: js_mul_def)
  next
    case False
    then have "2 ^ 53 < p - 1" by simp
    from to_double_big [OF this] consider "js_sub (Finite p) (Finite 1) = Infinity"
      | y where "js_sub (Finite p) (Finite 1) = Finite y" "2 ^ 53 \<le> y"
      by (auto simp: js_sub_def)
    then show ?thesis
    proof cases
      case 1
      then show ?thesis using l by (simp add: js_mul_def at_least_iff)
    next
      case 2
      have "y * 1 \<le> y * l" using l 2(2) by (intro mult_left_mono) auto
      then have "?n \<le> y * l" using 2(2) n53 by linarith
      then have "at_least ?n (to_double (y * l))"
        using n53 by (intro to_double_at_least) auto
      then show ?thesis using 2(1) by (simp add: js_mul_def)
    qed
  qed
  show ?thesis
    unfolding pagedTopics_def Let_def by (rule slice_past_end [OF start])
qed

lemma pagedTopics_infinite_page:
  assumes "1 \<le> l"
  shows "pagedTopics xs Infinity (Finite l) = []"
proof -
  have "js_mul (js_sub Infinity (Finite 1)) (Finite l) = Infinity"
    using assms by (simp add: js_sub_def js_mul_def)
  then show ?thesis
    unfolding pagedTopics_def Let_def by (simp add: slice_past_end at_least_iff)
qed

lemma ceiling_quotient_bounds:
  fixes n l :: int
  assumes "1 \<le> l" "0 \<le> n"
  shows "0 \<le> - ((- n) div l)" and "n \<le> - ((- n) div l) * l" and "(- ((- n) div l) - 1) * l < n"
proof -
  have pos: "0 < l" using assms by simp
  have "(- n) div l \<le> 0" using pos assms by (intro div_nonpos_pos_le0) simp_all
  then show "0 \<le> - ((- n) div l)" by simp
  have eq: "(- n) div l * l + (- n) mod l = - n" by (rule div_mult_mod_eq)
  have m0: "0 \<le> (- n) mod l" and ml: "(- n) mod l < l" using pos by simp_all
  have "- ((- n) div l) * l = - ((- n) div l * l)" by simp
  then show "n \<le> - ((- n) div l) * l" using eq m0 by linarith
  have "(- ((- n) div l) - 1) * l = - ((- n) div l * l) - l" by (simp add: algebra_simps)
  then show "(- ((- n) div l) - 1) * l < n" using eq ml by linarith
qed

lemma concat_pages_take:
  assumes l: "1 \<le> l" and len: "length xs < 2 ^ 32"
      and k: "(int k - 1) * l < int (length xs) \<or> k = 0"
  shows "concat (map (\<lambda>p. pagedTopics xs (Finite p) (Finite l)) [1..int k]) = take (k * nat l) xs"
  using k
proof (induction k)
  case 0
  show ?case by simp
next
  case (Suc k)
  have inside: "(int (Suc k) - 1) * l < int (length xs)" using Suc.prems by simp
  have "(int k - 1) * l \<le> (int (Suc k) - 1) * l" using l by (intro mult_right_mono) auto
  then have "(int k - 1) * l < int (length xs) \<or> k = 0" using inside by linarith
  then have IH: "concat (map (\<lambda>p. pagedTopics xs (Finite p) (Finite l)) [1..int k]) = take (k * nat l) xs"
    by (rule Suc.IH)
  have "[1..int (Suc k)] = [1..int k] @ [int (Suc k)]"
    by (simp add: upto_rec2)
  moreover have "pagedTopics xs (Finite (int (Suc k))) (Finite l) = take (nat l) (drop (k * nat l) xs)"
    using pagedTopics_in_range [OF l _ inside len] by simp
  moreover have "take (Suc k * nat l) xs
                 = take (k * nat l) xs @ take (nat l) (drop (k * nat l) xs)"
    using take_add [of "k * nat l" "nat l" xs] by (simp add: add.commute)
  ultimately show ?case
    using IH by simp
qed

subsection \<open>Sorting\<close>

lemma insert_by_asc: "insert_by (\<lambda>a b. f a - f b) x ys = insort_key f x ys"
  for f :: "'a \<Rightarrow> int"
  by (induction ys) auto

lemma insert_by_desc: "insert_by (\<lambda>a b. f b - f a) x ys = insort_key (\<lambda>a. - f a) x ys"
  for f :: "'a \<Rightarrow> int"
  by (induction ys) auto

lemma array_sort_asc: "array_sort (\<lambda>a b. f a - f b) xs = sort_key f xs"
  for f :: "'a \<Rightarrow> int"
  by (induction xs) (simp_all add: array_sort_def insert_by_asc)

lemma array_sort_desc: "array_sort (\<lambda>a b. f b - f a) xs = sort_key (\<lambda>a. - f a) xs"
  for f :: "'a \<Rightarrow> int"
  by (induction xs) (simp_all add: array_sort_def insert_by_desc)

lemma sorted_rev_uminus:
  "sorted (map f ys) \<Longrightarrow> sorted (map (\<lambda>a. - f a) (rev ys))" for f :: "'a \<Rightarrow> int"
  by (induction ys) (auto simp: sorted_append)

lemma sort_key_desc_rev:
  fixes f :: "'a \<Rightarrow> int"
  assumes "distinct (map f xs)"
  shows "sort_key (\<lambda>a. - f a) xs = rev (sort_key f xs)"
proof -
  let ?g = "\<lambda>a. - f a"
  let ?l = "sort_key ?g xs" and ?r = "rev (sort_key f xs)"
  have inj: "inj_on ?g (set xs)"
    using assms by (auto simp: distinct_map inj_on_def)
  have dx: "distinct xs" using assms by (simp add: distinct_map)
  have s1: "sorted (map ?g ?l)" by simp
  have s2: "sorted (map ?g ?r)" by (rule sorted_rev_uminus) simp
  have d1: "distinct (map ?g ?l)" using inj dx by (simp add: distinct_map)
  have d2: "distinct (map ?g ?r)" using inj dx by (simp add: distinct_map)
  have e: "set (map ?g ?l) = set (map ?g ?r)" by simp
  have "map ?g ?l = map ?g ?r" by (rule sorted_distinct_set_unique [OF s1 d1 s2 d2 e])
  moreover have "inj_on ?g (set ?l \<union> set ?r)" using inj by simp
  ultimately show ?thesis by (simp add: inj_on_map_eq_map)
qed

lemma store_untouched:
  assumes "cells st a = Some ts" "a < next_ref st"
  shows "\<exists>res st'. sortTopics_store h st a k = Some (res, st')
          \<and> cells st' a = Some ts
          \<and> (\<forall>b. b < next_ref st \<longrightarrow> cells st' b = cells st b)
          \<and> (case sortTopics h ts k of Inl e \<Rightarrow> res = Inl e
              | Inr ys \<Rightarrow> res = Inr (next_ref st) \<and> cells st' (next_ref st) = Some ys)"
  using assms
  by (auto simp: sortTopics_store_def sortTopics_def store_spread_def store_sort_def Let_def
           split: sum.splits)

subsection \<open>Looking a post up by its id\<close>



lemma findIndex_by_id:
  assumes "distinct (map topic_id ts)" "t \<in> set ts"
  shows "\<exists>i < length ts. ts ! i = t
           \<and> array_findIndex (\<lambda>x. Finite (topic_id x) = Finite (topic_id t)) ts = Some i"
  using assms
proof (induction ts)
  case Nil
  then show ?case by simp
next
  case (Cons a ts)
  show ?case
  proof (cases "a = t")
    case True
    then show ?thesis by (intro exI [of _ 0]) simp
  next
    case False
    then have "t \<in> set ts" "distinct (map topic_id ts)" "topic_id a \<noteq> topic_id t"
      using Cons.prems by (auto simp: image_iff)
    moreover from this obtain i where "i < length ts" "ts ! i = t"
        "array_findIndex (\<lambda>x. Finite (topic_id x) = Finite (topic_id t)) ts = Some i"
      using Cons.IH by blast
    ultimately show ?thesis by (intro exI [of _ "Suc i"]) simp
  qed
qed

section \<open>What a request does to the posts and the counter\<close>

lemma topics_step_refl: "topics_step s s"
  by (simp add: topics_step_def)

lemma create_process_step: "create_process s r u = (res, s') \<Longrightarrow> topics_step s s'"
  by (auto simp: create_process_def topics_step_def Let_def split: option.splits sum.splits if_splits)

lemma update_process_step: "update_process h s r u = (res, s') \<Longrightarrow> topics_step s s'"
  by (auto simp: update_process_def topics_step_def Let_def map_update array_get_Some map_update_same
           split: option.splits sum.splits if_splits)

lemma delete_process_step: "delete_process s r u = (res, s') \<Longrightarrow> topics_step s s'"
  by (auto simp: delete_process_def topics_step_def Let_def split: option.splits sum.splits if_splits)

lemma register_process_step: "register_process s r = (res, s') \<Longrightarrow> topics_step s s'"
  by (auto simp: register_process_def topics_step_def Let_def
           split: option.splits sum.splits if_splits qval.splits)

lemma login_process_step: "login_process s r = (res, s') \<Longrightarrow> topics_step s s'"
  by (auto simp: login_process_def topics_step_def Let_def split: option.splits sum.splits if_splits)

lemma logout_process_step: "logout_process s r = (out, s') \<Longrightarrow> topics_step s s'"
  by (auto simp: logout_process_def topics_step_def Let_def split: option.splits sum.splits if_splits)

lemma post_try_step: "post_try h s r = (res, s') \<Longrightarrow> topics_step s s'"
  by (auto simp: post_try_def topics_step_refl split: sum.splits if_splits
           dest: create_process_step update_process_step delete_process_step
                 register_process_step login_process_step)

lemma post_route_step: "post_route h s r = (out, s') \<Longrightarrow> topics_step s s'"
  by (auto simp: post_route_def split: sum.splits prod.splits dest: post_try_step)

lemma handle_step: "handle h s r = (out, s') \<Longrightarrow> topics_step s s'"
  by (auto simp: handle_def topics_step_refl split: sum.splits if_splits
           dest: post_route_step logout_process_step)

lemma handle_snd_step: "topics_step s (snd (handle h s r))"
  by (rule handle_step [of h s r "fst (handle h s r)"]) simp

text \<open>
  While the counter is a double that \<open>+ 1\<close> still changes, a step keeps the invariant
  that every id lies below the counter; a counter that has reached \<open>2 ^ 53\<close> never
  comes back below it.
\<close>

lemma topics_step_mono:
  assumes "topics_step s s'" "- (2 ^ 53) < nextId s" "nextId s < 2 ^ 53"
  shows "nextId s \<le> nextId s'"
  using assms by (auto simp: topics_step_def plus_one_exact)

lemma topics_step_invariant:
  assumes "topics_step s s'" "ids_below_counter s" "- (2 ^ 53) < nextId s" "nextId s < 2 ^ 53"
  shows "ids_below_counter s'"
proof -
  consider (same) "topics s' = topics s" "nextId s' = nextId s"
    | (new) new where "topics s' = topics s @ [new]" "topic_id new = nextId s"
        "nextId s' = plus_one (nextId s)"
    | (upd) "nextId s' = nextId s" "map topic_id (topics s') = map topic_id (topics s)"
    | (del) P where "nextId s' = nextId s" "topics s' = filter P (topics s)"
    using assms(1) unfolding topics_step_def by blast
  then show ?thesis
  proof cases
    case same
    then show ?thesis using assms(2) by (simp add: ids_below_counter_def)
  next
    case new
    have "nextId s' = nextId s + 1" using new(3) assms(3,4) by (simp add: plus_one_exact)
    then show ?thesis using new assms(2) by (auto simp: ids_below_counter_def)
  next
    case upd
    have eq: "topic_id ` set (topics s') = topic_id ` set (topics s)"
      using upd(2) by (metis set_map)
    have "\<forall>i \<in> topic_id ` set (topics s). i < nextId s"
      using assms(2) by (auto simp: ids_below_counter_def)
    then have "\<forall>i \<in> topic_id ` set (topics s'). i < nextId s"
      using eq by simp
    then show ?thesis using upd(1) by (auto simp: ids_below_counter_def)
  next
    case del
    then show ?thesis using assms(2) by (auto simp: ids_below_counter_def)
  qed
qed

lemma topics_step_grow:
  assumes "topics_step s s'" "length (topics s) < length (topics s')"
  shows "\<exists>new. topics s' = topics s @ [new] \<and> topic_id new = nextId s
           \<and> nextId s' = plus_one (nextId s)"
proof -
  have "length (topics s') = length (topics s)"
    if "map topic_id (topics s') = map topic_id (topics s)"
    using that by (metis length_map)
  moreover have "length (filter P (topics s)) \<le> length (topics s)" for P by simp
  ultimately show ?thesis
    using assms unfolding topics_step_def by (metis less_irrefl not_less)
qed

lemma topics_step_distinct:
  assumes "topics_step s s'" "ids_below_counter s" "distinct (map topic_id (topics s))"
  shows "distinct (map topic_id (topics s'))"
proof -
  consider (same) "topics s' = topics s"
    | (new) new where "topics s' = topics s @ [new]" "topic_id new = nextId s"
    | (upd) "map topic_id (topics s') = map topic_id (topics s)"
    | (del) P where "topics s' = filter P (topics s)"
    using assms(1) unfolding topics_step_def by blast
  then show ?thesis
  proof cases
    case same
    then show ?thesis using assms(3) by simp
  next
    case new
    have "topic_id new \<notin> topic_id ` set (topics s)"
      using assms(2) new(2) by (auto simp: ids_below_counter_def)
    then show ?thesis using assms(3) new(1) by simp
  next
    case upd
    then show ?thesis using assms(3) by simp
  next
    case del
    then show ?thesis using assms(3) by (simp add: distinct_map_filter)
  qed
qed

lemma topics_step_big:
  assumes "topics_step s s'" "2 ^ 53 \<le> nextId s"
  shows "2 ^ 53 \<le> nextId s'"
proof -
  have "2 ^ 53 \<le> plus_one (nextId s)"
    unfolding plus_one_def using assms(2) by (intro round_double_big) linarith
  then show ?thesis using assms by (auto simp: topics_step_def)
qed

lemma startup_counter:
  assumes "\<forall>t \<in> set (topics (startup t0 topics_file users_file)). \<bar>topic_id t\<bar> < 2 ^ 53"
  shows "nextId (startup t0 topics_file users_file)
           = (if topics (startup t0 topics_file users_file) = [] then 1
              else Max (set (map topic_id (topics (startup t0 topics_file users_file)))) + 1)"
    and "ids_below_counter (startup t0 topics_file users_file)"
    and "- (2 ^ 53) < nextId (startup t0 topics_file users_file)"
proof -
  let ?ts = "loadData topics_file (initialTopics t0)"
  have ts: "topics (startup t0 topics_file users_file) = ?ts"
    by (simp add: startup_def Let_def)
  have nx: "nextId (startup t0 topics_file users_file)
              = (if ?ts = [] then 1 else plus_one (math_max (map topic_id ?ts)))"
    by (simp add: startup_def Let_def)
  have safe: "\<forall>t \<in> set ?ts. \<bar>topic_id t\<bar> < 2 ^ 53" using assms ts by simp
  have exact: "plus_one (math_max (map topic_id ?ts)) = math_max (map topic_id ?ts) + 1"
    and low: "- (2 ^ 53) < math_max (map topic_id ?ts)" if "?ts \<noteq> []"
  proof -
    have "math_max (map topic_id ?ts) \<in> set (map topic_id ?ts)"
      using that by (intro math_max_in) simp
    then have b: "\<bar>math_max (map topic_id ?ts)\<bar> < 2 ^ 53" using safe by auto
    then show "plus_one (math_max (map topic_id ?ts)) = math_max (map topic_id ?ts) + 1"
      by (intro plus_one_exact) linarith+
    show "- (2 ^ 53) < math_max (map topic_id ?ts)" using b by linarith
  qed
  show "nextId (startup t0 topics_file users_file)
           = (if topics (startup t0 topics_file users_file) = [] then 1
              else Max (set (map topic_id (topics (startup t0 topics_file users_file)))) + 1)"
    unfolding ts nx using exact by (simp add: math_max_Max)
  show "ids_below_counter (startup t0 topics_file users_file)"
  proof (cases "?ts = []")
    case True
    then show ?thesis by (simp add: ids_below_counter_def ts)
  next
    case False
    have "topic_id x < math_max (map topic_id ?ts) + 1" if "x \<in> set ?ts" for x
      using math_max_ge [of "topic_id x" "map topic_id ?ts"] that by auto
    then show ?thesis
      using False exact by (simp add: ids_below_counter_def ts nx)
  qed
  show "- (2 ^ 53) < nextId (startup t0 topics_file users_file)"
  proof (cases "?ts = []")
    case True
    then show ?thesis by (simp add: nx)
  next
    case False
    then show ?thesis using exact low by (simp add: nx)
  qed
qed

lemma run_big: "2 ^ 53 \<le> nextId s \<Longrightarrow> 2 ^ 53 \<le> nextId (run h s rs)"
proof (induction rs arbitrary: s)
  case Nil
  then show ?case by simp
next
  case (Cons r rs)
  have "2 ^ 53 \<le> nextId (snd (handle h s r))"
    using handle_snd_step Cons.prems by (rule topics_step_big)
  then show ?case using Cons.IH by simp
qed

lemma run_small: "nextId (run h s rs) < 2 ^ 53 \<Longrightarrow> nextId s < 2 ^ 53"
  using run_big [of s h rs] by linarith

lemma run_bounded:
  assumes "nextId (run h s rs) < 2 ^ 53" "ids_below_counter s" "- (2 ^ 53) < nextId s"
  shows "ids_below_counter (run h s rs) \<and> nextId s \<le> nextId (run h s rs)"
  using assms
proof (induction rs arbitrary: s)
  case Nil
  then show ?case by simp
next
  case (Cons r rs)
  let ?s1 = "snd (handle h s r)"
  have end1: "nextId (run h ?s1 rs) < 2 ^ 53" using Cons.prems(1) by simp
  then have small1: "nextId ?s1 < 2 ^ 53" by (rule run_small)
  have step: "topics_step s ?s1" by (rule handle_snd_step)
  have small: "nextId s < 2 ^ 53" using topics_step_big [OF step] small1 by linarith
  have mono: "nextId s \<le> nextId ?s1"
    using step Cons.prems(3) small by (rule topics_step_mono)
  have inv1: "ids_below_counter ?s1"
    using step Cons.prems(2,3) small by (rule topics_step_invariant)
  have low1: "- (2 ^ 53) < nextId ?s1" using mono Cons.prems(3) by linarith
  have "ids_below_counter (run h ?s1 rs) \<and> nextId ?s1 \<le> nextId (run h ?s1 rs)"
    using end1 inv1 low1 by (rule Cons.IH)
  then show ?case using mono by simp
qed

lemma run_ids_unique:
  assumes "nextId (run h s rs) < 2 ^ 53" "ids_below_counter s" "- (2 ^ 53) < nextId s"
      and "distinct (map topic_id (topics s))"
  shows "distinct (map topic_id (topics (run h s rs)))"
  using assms
proof (induction rs arbitrary: s)
  case Nil
  then show ?case by simp
next
  case (Cons r rs)
  let ?s1 = "snd (handle h s r)"
  have end1: "nextId (run h ?s1 rs) < 2 ^ 53" using Cons.prems(1) by simp
  then have small1: "nextId ?s1 < 2 ^ 53" by (rule run_small)
  have step: "topics_step s ?s1" by (rule handle_snd_step)
  have small: "nextId s < 2 ^ 53" using topics_step_big [OF step] small1 by linarith
  have mono: "nextId s \<le> nextId ?s1"
    using step Cons.prems(3) small by (rule topics_step_mono)
  have inv1: "ids_below_counter ?s1"
    using step Cons.prems(2,3) small by (rule topics_step_invariant)
  have low1: "- (2 ^ 53) < nextId ?s1" using mono Cons.prems(3) by linarith
  have d1: "distinct (map topic_id (topics ?s1))"
    using step Cons.prems(2,4) by (rule topics_step_distinct)
  show ?case using Cons.IH [OF end1 inv1 low1 d1] by simp
qed

lemma run_append: "run h s (xs @ ys) = run h (run h s xs) ys"
  by (induction xs arbitrary: s) auto

text \<open>
  From \<open>2 ^ 53\<close> on the invariant is lost: two posts created one after the other get
  the same id.
\<close>

lemma ids_repeat_from_2_53:
  "map topic_id (topics (run example_host (example_state\<lparr>nextId := 2 ^ 53\<rparr>)
                           [login_alice, create_hello, create_hello]))
   = [1, 2, 2 ^ 53, 2 ^ 53]"
  by code_simp

section \<open>The logged-in user\<close>

lemma find_in_set: "find P xs = Some x \<Longrightarrow> x \<in> set xs"
  by (induction xs) (auto split: if_splits)

lemma getLoggedInUser_result:
  assumes "getLoggedInUser s r = Inr (Some v)"
  shows "password v = None \<and> (\<exists>u \<in> set (users s). v = u\<lparr>password := None\<rparr>)"
  using assms
  by (auto simp: getLoggedInUser_def
           split: sum.splits option.splits if_splits sval.splits dest: find_in_set)

lemma getLoggedInUser_no_cookie: "headers_cookie r = None \<Longrightarrow> getLoggedInUser s r = Inr None"
  by (simp add: getLoggedInUser_def parseCookies_def)

lemma find_absent_id: "uid \<notin> user_id ` set us \<Longrightarrow> find (\<lambda>u. user_id u = uid) us = None"
  by (induction us) auto

lemma getLoggedInUser_no_user:
  assumes "parseCookies r = Inr cookies"
      and "cookies (js ''sessionId'') = None
           \<or> (\<exists>sid. cookies (js ''sessionId'') = Some sid \<and> sessions s sid = None)
           \<or> (\<exists>sid uid. cookies (js ''sessionId'') = Some sid \<and> sessions s sid = Some uid
                 \<and> uid \<notin> user_id ` set (users s))"
  shows "getLoggedInUser s r = Inr None"
  using assms
  by (auto simp: getLoggedInUser_def sessions_get_def find_absent_id split: option.splits)

section \<open>What does hold of registration and of unknown paths\<close>

lemma register_process_new_user:
  assumes "register_process s r = (res, s')" "users s' \<noteq> users s"
  shows "\<exists>new. users s' = users s @ [new] \<and> user_id new = nextUserId s
           \<and> username new \<notin> username ` set (users s)
           \<and> \<not> is_blank (Single (username new))"
  using assms
  by (auto simp: register_process_def js_or_def is_blank_def list_ex_iff Let_def
           split: sum.splits if_splits qval.splits)

lemma unknown_path_not_post:
  assumes "getLoggedInUser s r = Inr lu"
      and "pathName r \<notin> set (map js [''/'', ''/create'', ''/update'', ''/login'', ''/register'',
                                       ''/logout_process''])"
      and "request_method r \<noteq> js ''POST''"
  shows "handle h s r = (html 404 NotFound, s)"
  using assms by (simp add: handle_def)

section \<open>Post ids\<close>

text \<open>
  C1, as the claim states it, fails: the counter lives in memory only, and every start
  of the server computes it again from the saved posts. Alice deletes the newest post,
  whose id is 2; the counter is still 3. After a restart from the saved file the
  counter is 2, and the next post created gets the id 2 a second time.
\<close>

theorem restart_reissues_deleted_id:
  "topic_id hello = 2
   \<and> hello \<in> set (topics (startup 1000 (Some [notice, hello]) (Some [alice])))
   \<and> nextId (run example_host (startup 1000 (Some [notice, hello]) (Some [alice]))
               [login_alice, alice_deletes_hello]) = 3
   \<and> nextId (restart 2000 (run example_host (startup 1000 (Some [notice, hello]) (Some [alice]))
               [login_alice, alice_deletes_hello])) = 2
   \<and> map topic_id (topics (run example_host
         (restart 2000 (run example_host (startup 1000 (Some [notice, hello]) (Some [alice]))
               [login_alice, alice_deletes_hello]))
         [login_alice, create_hello])) = [1, 2]
   \<and> last (topics (run example_host
         (restart 2000 (run example_host (startup 1000 (Some [notice, hello]) (Some [alice]))
               [login_alice, alice_deletes_hello]))
         [login_alice, create_hello])) \<noteq> hello"
  by code_simp

text \<open>
  C1, amended. Within one run of the server, the ids read at startup being below
  \<open>2 ^ 53\<close> in magnitude and the counter being below \<open>2 ^ 53\<close> when the request arrives:
  at startup the counter is the largest post id plus one, or 1 when there is no post.
  The request does not lower the counter, a deletion included. When it makes the
  collection longer, it has appended one post, numbered by the counter, and that id is
  greater than the id of every post that was in the collection at any earlier moment
  since startup.
\<close>

theorem post_ids_increase_within_a_run:
  fixes h t topics_file users_file rs r
  defines "init \<equiv> startup t topics_file users_file"
  defines "s \<equiv> run h init rs"
  defines "s' \<equiv> snd (handle h s r)"
  assumes safe_ids: "\<forall>old \<in> set (topics init). \<bar>topic_id old\<bar> < 2 ^ 53"
      and below: "nextId s < 2 ^ 53"
  shows "nextId init = (if topics init = [] then 1 else Max (set (map topic_id (topics init))) + 1)
       \<and> nextId s \<le> nextId s'
       \<and> (length (topics s) < length (topics s') \<longrightarrow>
            (\<exists>new. topics s' = topics s @ [new] \<and> nextId s' = topic_id new + 1
               \<and> (\<forall>k \<le> length rs. \<forall>old \<in> set (topics (run h init (take k rs))).
                     topic_id old < topic_id new)))"
proof (intro conjI impI)
  note st = startup_counter [OF safe_ids [unfolded init_def], folded init_def]
  show "nextId init = (if topics init = [] then 1 else Max (set (map topic_id (topics init))) + 1)"
    by (rule st(1))
  have "nextId init \<le> nextId s"
    using run_bounded [OF below [unfolded s_def] st(2,3)] by (simp add: s_def)
  then have low: "- (2 ^ 53) < nextId s" using st(3) by linarith
  have step: "topics_step s s'"
    unfolding s'_def by (rule handle_snd_step)
  then show "nextId s \<le> nextId s'" using low below by (rule topics_step_mono)
  assume "length (topics s) < length (topics s')"
  then obtain new where new: "topics s' = topics s @ [new]" "topic_id new = nextId s"
      "nextId s' = plus_one (nextId s)"
    using topics_step_grow [OF step] by blast
  have succ: "nextId s' = topic_id new + 1"
    using new(2,3) low below by (simp add: plus_one_exact)
  have "topic_id old < topic_id new"
    if "old \<in> set (topics (run h init (take k rs)))" for k old
  proof -
    let ?m = "run h init (take k rs)"
    have s: "s = run h ?m (drop k rs)"
      unfolding s_def by (metis append_take_drop_id run_append)
    have m_small: "nextId ?m < 2 ^ 53" using below s run_small by metis
    have m: "ids_below_counter ?m" "nextId init \<le> nextId ?m"
      using run_bounded [OF m_small st(2,3)] by simp_all
    have "nextId ?m \<le> nextId s"
    proof -
      have "nextId (run h ?m (drop k rs)) < 2 ^ 53" using below s by simp
      moreover have "- (2 ^ 53) < nextId ?m" using m(2) st(3) by linarith
      ultimately show ?thesis using run_bounded [of h ?m "drop k rs"] m(1) s by simp
    qed
    moreover have "topic_id old < nextId ?m" using m(1) that by (simp add: ids_below_counter_def)
    ultimately show ?thesis using new(2) by simp
  qed
  then show "\<exists>new. topics s' = topics s @ [new] \<and> nextId s' = topic_id new + 1
               \<and> (\<forall>k \<le> length rs. \<forall>old \<in> set (topics (run h init (take k rs))).
                     topic_id old < topic_id new)"
    using new(1) succ by blast
qed

theorem post_ids_increase_within_a_run_witness:
  "\<exists>new. topics (snd (handle example_host
                        (run example_host (startup 1000 None (Some [alice])) example_run)
                        create_hello))
          = topics (run example_host (startup 1000 None (Some [alice])) example_run) @ [new]
        \<and> topic_id new = 3
        \<and> (\<forall>old \<in> set (topics (startup 1000 None (Some [alice]))). topic_id old < topic_id new)"
proof -
  let ?init = "startup 1000 None (Some [alice])"
  let ?s = "run example_host ?init example_run"
  let ?s' = "snd (handle example_host ?s create_hello)"
  have safe: "\<forall>old \<in> set (topics ?init). \<bar>topic_id old\<bar> < 2 ^ 53" by code_simp
  have below: "nextId ?s < 2 ^ 53" by code_simp
  have grows: "length (topics ?s) < length (topics ?s')" by code_simp
  have counter: "nextId ?s' = 4" by code_simp
  note inst = post_ids_increase_within_a_run [where h = example_host and t = 1000
        and topics_file = None and users_file = "Some [alice]" and rs = example_run
        and r = create_hello, OF safe below]
  note created = inst [THEN conjunct2, THEN conjunct2, THEN mp, OF grows]
  then obtain new where new: "topics ?s' = topics ?s @ [new]" "nextId ?s' = topic_id new + 1"
      "\<forall>k \<le> length example_run. \<forall>old \<in> set (topics (run example_host ?init (take k example_run))).
          topic_id old < topic_id new"
    by (elim exE conjE)
  have "\<forall>old \<in> set (topics (run example_host ?init (take 0 example_run))).
          topic_id old < topic_id new"
    using new(3) [rule_format, of 0] by simp
  then have old: "\<forall>old \<in> set (topics ?init). topic_id old < topic_id new" by simp
  have "topic_id new = 3" using new(2) counter by simp
  with new(1) old show ?thesis by (intro exI [of _ new] conjI)
qed

section \<open>Authorisation of edits and deletions\<close>



section \<open>Registration\<close>

text \<open>
  C3, as the claim states it, fails: a registration whose username is taken and whose
  password is blank is answered 400, not 409, because the blank check comes first.
\<close>

theorem taken_username_blank_password_counterexample:
  "alice \<in> set (users example_state)
   \<and> Single (username alice) = post register_taken_blank_password (js ''username'')
   \<and> request_method register_taken_blank_password = js ''POST''
   \<and> pathName register_taken_blank_password = js ''/register_process''
   \<and> status_of (fst (handle example_host example_state register_taken_blank_password)) = Some 400"
  by code_simp

text \<open>
  C3, amended. For a \<open>POST /register_process\<close> that reaches the handler and sends each
  of username, password and nickname at most once: if one of the three is blank the
  answer is 400; if none is blank and the username equals that of an existing user the
  answer is 409; in both cases the state, the user collection included, is unchanged.
\<close>

theorem register_blank_then_duplicate:
  assumes reaches: "getLoggedInUser s r = Inr lu"
      and route: "request_method r = js ''POST''" "pathName r = js ''/register_process''"
      and single: "\<not> repeated (post r (js ''username''))" "\<not> repeated (post r (js ''password''))"
                  "\<not> repeated (post r (js ''nickname''))"
  shows "(is_blank (post r (js ''username'')) \<or> is_blank (post r (js ''password''))
            \<or> is_blank (post r (js ''nickname''))
          \<longrightarrow> handle h s r = (html 400 BadRequest, s))
       \<and> (\<not> is_blank (post r (js ''username'')) \<and> \<not> is_blank (post r (js ''password''))
            \<and> \<not> is_blank (post r (js ''nickname''))
            \<and> (\<exists>u \<in> set (users s). Single (username u) = post r (js ''username''))
          \<longrightarrow> handle h s r = (html 409 Conflict, s))"
proof -
  have d: "handle h s r = (case register_process s r of
                             (Inl e, s') \<Rightarrow> (html 500 ServerError, s')
                           | (Inr out, s') \<Rightarrow> (out, s'))"
    using reaches route by (simp add: handle_def post_route_def post_try_def paths_distinct)
  have chk: "js_or (isEmptyOrWhitespace (post r (js ''username'')))
               (js_or (isEmptyOrWhitespace (post r (js ''password'')))
                      (isEmptyOrWhitespace (post r (js ''nickname''))))
             = Inr (is_blank (post r (js ''username'')) \<or> is_blank (post r (js ''password''))
                    \<or> is_blank (post r (js ''nickname'')))"
    using single by (simp add: not_repeated_cases js_or_def)
  show ?thesis
    unfolding d register_process_def chk
    by (auto simp: list_ex_iff)
qed

theorem register_blank_then_duplicate_witness:
  "handle example_host example_state register_taken_blank_password = (html 400 BadRequest, example_state)
   \<and> handle example_host example_state register_taken = (html 409 Conflict, example_state)"
proof -
  have r1: "getLoggedInUser example_state register_taken_blank_password = Inr None"
    and m1: "request_method register_taken_blank_password = js ''POST''"
    and p1: "pathName register_taken_blank_password = js ''/register_process''"
    and s1: "\<not> repeated (post register_taken_blank_password (js ''username''))"
            "\<not> repeated (post register_taken_blank_password (js ''password''))"
            "\<not> repeated (post register_taken_blank_password (js ''nickname''))"
    and b1: "is_blank (post register_taken_blank_password (js ''password''))"
    by code_simp+
  have r2: "getLoggedInUser example_state register_taken = Inr None"
    and m2: "request_method register_taken = js ''POST''"
    and p2: "pathName register_taken = js ''/register_process''"
    and s2: "\<not> repeated (post register_taken (js ''username''))"
            "\<not> repeated (post register_taken (js ''password''))"
            "\<not> repeated (post register_taken (js ''nickname''))"
    and b2: "\<not> is_blank (post register_taken (js ''username''))"
            "\<not> is_blank (post register_taken (js ''password''))"
            "\<not> is_blank (post register_taken (js ''nickname''))"
    and e2: "\<exists>u \<in> set (users example_state). Single (username u) = post register_taken (js ''username'')"
    by code_simp+
  have "handle example_host example_state register_taken_blank_password
          = (html 400 BadRequest, example_state)"
    using register_blank_then_duplicate [OF r1 m1 p1 s1, where h = example_host] b1 by blast
  moreover have "handle example_host example_state register_taken = (html 409 Conflict, example_state)"
    using register_blank_then_duplicate [OF r2 m2 p2 s2, where h = example_host] b2 e2 by blast
  ultimately show ?thesis by blast
qed

section \<open>Pagination\<close>

text \<open>
  C4, as the claim states it, fails: the limit is a double, and a limit written with
  310 digits parses to \<open>Infinity\<close>, which is at least 1. The start index of page 1 is
  then \<open>0 * Infinity\<close>, which is \<open>NaN\<close>, and so is the end index: the slice is empty.
  The page count is \<open>Math.ceil(2 / Infinity)\<close>, which is 0. The two posts of the
  collection are on no page.
\<close>

theorem listing_is_empty_for_infinite_limit:
  "limitOf huge_limit = Infinity
   \<and> js_le (Finite 1) (limitOf huge_limit)
   \<and> pageOf huge_limit = Finite 1
   \<and> sortTopics example_host (topics example_state) (sortOf huge_limit) = Inr [hello, notice]
   \<and> totalPagesOf (int (length [hello, notice])) (limitOf huge_limit) = Finite 0
   \<and> pagedTopics [hello, notice] (Finite 1) (limitOf huge_limit) = []
   \<and> fst (handle example_host example_state huge_limit) = html 200 (Index [] None Intro)"
  by code_simp

text \<open>
  C4, amended. For a finite limit of at least 1 and an array of posts (its length is
  below \<open>2 ^ 32\<close>) the page count is finite, the page slices of pages 1 to the page
  count, one after the other, are the whole sorted sequence (nothing twice, nothing
  left out), and the slice of every later page, the page \<open>Infinity\<close> included, is empty.
\<close>

theorem pagination_partitions_for_finite_limit:
  assumes "1 \<le> limit" and "length sortedTopics < 2 ^ 32"
  shows "\<exists>totalPages. totalPagesOf (int (length sortedTopics)) (Finite limit) = Finite totalPages
           \<and> concat (map (\<lambda>page. pagedTopics sortedTopics (Finite page) (Finite limit)) [1..totalPages])
               = sortedTopics
           \<and> (\<forall>page. totalPages < page \<longrightarrow> pagedTopics sortedTopics (Finite page) (Finite limit) = [])
           \<and> pagedTopics sortedTopics Infinity (Finite limit) = []"
proof -
  let ?n = "int (length sortedTopics)"
  let ?q = "- ((- ?n) div limit)"
  have q0: "0 \<le> ?q" and cover: "?n \<le> ?q * limit" and last: "(?q - 1) * limit < ?n"
    using ceiling_quotient_bounds [OF assms(1), of ?n] by auto
  have tp: "totalPagesOf ?n (Finite limit) = Finite ?q"
    using assms by (simp add: totalPagesOf_def)
  have "(int (nat ?q) - 1) * limit < ?n \<or> nat ?q = 0" using q0 last by simp
  then have "concat (map (\<lambda>page. pagedTopics sortedTopics (Finite page) (Finite limit)) [1..int (nat ?q)])
        = take (nat ?q * nat limit) sortedTopics"
    by (rule concat_pages_take [OF assms])
  moreover have "length sortedTopics \<le> nat ?q * nat limit"
  proof -
    have "?n \<le> int (nat ?q * nat limit)" using cover q0 assms(1) by (simp add: nat_mult_distrib)
    then show ?thesis by linarith
  qed
  ultimately have all: "concat (map (\<lambda>page. pagedTopics sortedTopics (Finite page) (Finite limit)) [1..?q])
        = sortedTopics"
    using q0 by simp
  have beyond: "pagedTopics sortedTopics (Finite page) (Finite limit) = []" if "?q < page" for page
  proof -
    have p1: "1 \<le> page" using that q0 by linarith
    have "?q * limit \<le> (page - 1) * limit" using that assms(1) by (intro mult_right_mono) auto
    then have "?n \<le> (page - 1) * limit" using cover by linarith
    then show ?thesis by (rule pagedTopics_beyond [OF assms(1) p1 _ assms(2)])
  qed
  show ?thesis using tp all beyond pagedTopics_infinite_page [OF assms(1)] by blast
qed

theorem pagination_partitions_for_finite_limit_witness:
  "concat (map (\<lambda>page. pagedTopics [notice, hello, notice] (Finite page) (Finite 2)) [1..2])
     = [notice, hello, notice]
   \<and> pagedTopics [notice, hello, notice] (Finite 3) (Finite 2) = []"
proof -
  have limit: "(1::int) \<le> 2" by simp
  have len: "length [notice, hello, notice] < 2 ^ 32" by simp
  obtain totalPages
    where tp: "totalPagesOf (int (length [notice, hello, notice])) (Finite 2) = Finite totalPages"
      and all: "concat (map (\<lambda>page. pagedTopics [notice, hello, notice] (Finite page) (Finite 2))
                  [1..totalPages]) = [notice, hello, notice]"
      and beyond: "\<forall>page. totalPages < page \<longrightarrow>
                     pagedTopics [notice, hello, notice] (Finite page) (Finite 2) = []"
    using pagination_partitions_for_finite_limit [OF limit len] by (elim exE conjE)
  have "totalPages = 2" using tp by (simp add: totalPagesOf_def)
  then show ?thesis using all beyond by simp
qed

section \<open>Sorting\<close>

text \<open>
  C8. When the posts have pairwise distinct creation times, sorting by \<open>latest\<close> gives
  the reverse of sorting by \<open>oldest\<close>. A key that is none of \<open>latest\<close>, \<open>oldest\<close> and
  \<open>title_asc\<close> sorts as \<open>latest\<close> does. On the store of arrays the sort returns a newly
  allocated array holding the sorted posts and leaves the array it was given, and
  every other array allocated before, as it was.
\<close>

theorem latest_is_reverse_of_oldest:
  "(distinct (map created_at ts) \<longrightarrow>
      (\<exists>ys. sortTopics h ts (Single (js ''oldest'')) = Inr ys
          \<and> sortTopics h ts (Single (js ''latest'')) = Inr (rev ys)))
   \<and> (k \<noteq> Single (js ''latest'') \<and> k \<noteq> Single (js ''oldest'') \<and> k \<noteq> Single (js ''title_asc'')
        \<longrightarrow> sortTopics h ts k = sortTopics h ts (Single (js ''latest'')))
   \<and> (cells st a = Some ts \<and> a < next_ref st \<longrightarrow>
        (\<exists>res st'. sortTopics_store h st a k = Some (res, st')
            \<and> cells st' a = Some ts
            \<and> (\<forall>b. b < next_ref st \<longrightarrow> cells st' b = cells st b)
            \<and> (case sortTopics h ts k of
                  Inl e \<Rightarrow> res = Inl e
                | Inr ys \<Rightarrow> res = Inr (next_ref st) \<and> cells st' (next_ref st) = Some ys)))"
proof (intro conjI impI)
  assume d: "distinct (map created_at ts)"
  have ne: "js ''oldest'' \<noteq> js ''latest''" by (simp add: js_def)
  have "sortTopics h ts (Single (js ''oldest'')) = Inr (sort_key created_at ts)"
    using ne by (simp add: sortTopics_def array_sort_asc)
  moreover have "sortTopics h ts (Single (js ''latest'')) = Inr (rev (sort_key created_at ts))"
    by (simp add: sortTopics_def array_sort_desc sort_key_desc_rev [OF d])
  ultimately show "\<exists>ys. sortTopics h ts (Single (js ''oldest'')) = Inr ys
          \<and> sortTopics h ts (Single (js ''latest'')) = Inr (rev ys)"
    by blast
next
  assume "k \<noteq> Single (js ''latest'') \<and> k \<noteq> Single (js ''oldest'') \<and> k \<noteq> Single (js ''title_asc'')"
  then show "sortTopics h ts k = sortTopics h ts (Single (js ''latest''))"
    by (simp add: sortTopics_def)
next
  assume "cells st a = Some ts \<and> a < next_ref st"
  then show "\<exists>res st'. sortTopics_store h st a k = Some (res, st')
            \<and> cells st' a = Some ts
            \<and> (\<forall>b. b < next_ref st \<longrightarrow> cells st' b = cells st b)
            \<and> (case sortTopics h ts k of
                  Inl e \<Rightarrow> res = Inl e
                | Inr ys \<Rightarrow> res = Inr (next_ref st) \<and> cells st' (next_ref st) = Some ys)"
    using store_untouched by blast
qed

theorem latest_is_reverse_of_oldest_witness:
  "sortTopics example_host [notice, hello] (Single (js ''latest'')) = Inr [hello, notice]
   \<and> sortTopics example_host [notice, hello] (Single (js ''popular'')) = Inr [hello, notice]
   \<and> (\<exists>st'. sortTopics_store example_host example_store 0 (Single (js ''popular''))
                = Some (Inr 1, st')
            \<and> cells st' 0 = Some [notice, hello] \<and> cells st' 1 = Some [hello, notice])"
proof -
  note inst = latest_is_reverse_of_oldest [where ts = "[notice, hello]" and h = example_host
      and k = "Single (js ''popular'')" and st = example_store and a = 0]
  have d: "distinct (map created_at [notice, hello])" by code_simp
  have unknown: "Single (js ''popular'') \<noteq> Single (js ''latest'')
                 \<and> Single (js ''popular'') \<noteq> Single (js ''oldest'')
                 \<and> Single (js ''popular'') \<noteq> Single (js ''title_asc'')"
    by code_simp
  have alloc: "cells example_store 0 = Some [notice, hello] \<and> 0 < next_ref example_store"
    by code_simp
  have oldest: "sortTopics example_host [notice, hello] (Single (js ''oldest'')) = Inr [notice, hello]"
    by code_simp
  have nxt: "next_ref example_store = 1" by code_simp
  obtain ys where "sortTopics example_host [notice, hello] (Single (js ''oldest'')) = Inr ys"
      and l: "sortTopics example_host [notice, hello] (Single (js ''latest'')) = Inr (rev ys)"
    using inst [THEN conjunct1, THEN mp, OF d] by (elim exE conjE)
  then have latest: "sortTopics example_host [notice, hello] (Single (js ''latest'')) = Inr [hello, notice]"
    using oldest by simp
  have other: "sortTopics example_host [notice, hello] (Single (js ''popular'')) = Inr [hello, notice]"
    using inst [THEN conjunct2, THEN conjunct1, THEN mp, OF unknown] latest by simp
  obtain res st' where "sortTopics_store example_host example_store 0 (Single (js ''popular''))
                          = Some (res, st')"
      and "cells st' 0 = Some [notice, hello]"
      and "case sortTopics example_host [notice, hello] (Single (js ''popular'')) of
             Inl e \<Rightarrow> res = Inl e
           | Inr ys \<Rightarrow> res = Inr (next_ref example_store) \<and> cells st' (next_ref example_store) = Some ys"
    using inst [THEN conjunct2, THEN conjunct2, THEN mp, OF alloc] by (elim exE conjE)
  then have "sortTopics_store example_host example_store 0 (Single (js ''popular'')) = Some (Inr 1, st')
             \<and> cells st' 0 = Some [notice, hello] \<and> cells st' 1 = Some [hello, notice]"
    using other nxt by simp
  then show ?thesis using latest other by blast
qed

section \<open>Defaults of the listing parameters\<close>

text \<open>
  C10. In the \<open>/\<close> listing a \<open>page\<close> or \<open>limit\<close> that parses to 0 (the string \<open>0\<close> does)
  is replaced by the default, 1 or 10, exactly as one that is missing or does not parse
  (a missing one does not). The limit is therefore never 0 and the page count
  \<open>Math.ceil(totalTopics / limit)\<close> is a finite number: it never divides by zero.
\<close>

theorem zero_page_or_limit_takes_default:
  "parseInt (Single (js ''0'')) = Finite 0 \<and> parseInt Absent = NotANumber
   \<and> (parseInt (query r (js ''page'')) = Finite 0 \<or> parseInt (query r (js ''page'')) = NotANumber
        \<longrightarrow> pageOf r = Finite 1)
   \<and> (parseInt (query r (js ''limit'')) = Finite 0 \<or> parseInt (query r (js ''limit'')) = NotANumber
        \<longrightarrow> limitOf r = Finite 10)
   \<and> limitOf r \<noteq> Finite 0
   \<and> (\<exists>n. totalPagesOf totalTopics (limitOf r) = Finite n)"
proof -
  have p0: "parseInt (Single (js ''0'')) = Finite 0" by code_simp
  have pa: "parseInt Absent = NotANumber" by code_simp
  have nz: "limitOf r \<noteq> NotANumber \<and> limitOf r \<noteq> Finite 0"
    unfolding limitOf_def by (rule numOr_cases) (simp_all add: DEFAULT_ITEMS_PER_PAGE_def)
  then have "\<exists>n. totalPagesOf totalTopics (limitOf r) = Finite n"
    by (cases "limitOf r") (simp_all add: totalPagesOf_def)
  then show ?thesis
    using p0 pa nz
    by (auto simp: pageOf_def limitOf_def numOr_def DEFAULT_ITEMS_PER_PAGE_def)
qed

theorem zero_page_or_limit_takes_default_witness:
  "pageOf zero_paging = Finite 1 \<and> limitOf zero_paging = Finite 10
   \<and> (\<exists>n. totalPagesOf 25 (limitOf zero_paging) = Finite n)"
proof -
  have p: "parseInt (query zero_paging (js ''page'')) = Finite 0
           \<or> parseInt (query zero_paging (js ''page'')) = NotANumber"
    and l: "parseInt (query zero_paging (js ''limit'')) = Finite 0
            \<or> parseInt (query zero_paging (js ''limit'')) = NotANumber"
    by code_simp+
  note inst = zero_page_or_limit_takes_default [of zero_paging 25]
  from inst p l show ?thesis by blast
qed

section \<open>Updating a post\<close>

text \<open>
  What does hold of \<open>POST /update_process\<close>: it validates no field. When the logged-in
  user is the author of the post the posted id names (post ids being unique), the post
  is rewritten with the posted title and description as they were sent, blank or not,
  and the time of the request as \<open>updated_at\<close>, and the answer is 302 or 500. It is 302
  when the \<open>Location\<close> header built from the posted \<open>page\<close>, \<open>limit\<close> and \<open>sort\<close> holds
  only characters a header may hold. \<open>POST /create_process\<close> by a logged-in user, in
  contrast, answers 400 and changes nothing when the title or the description is blank
  (the title being sent at most once).
\<close>

lemma update_process_saves_before_it_answers:
  assumes logged_in: "getLoggedInUser s r = Inr (Some u)"
      and route: "request_method r = js ''POST''" "pathName r = js ''/update_process''"
      and unique_ids: "distinct (map topic_id (topics s))"
      and target: "t \<in> set (topics s)" "parseInt (post r (js ''id'')) = Finite (topic_id t)"
      and is_author: "author t = user_id u"
  shows "(status_of (fst (handle h s r)) = Some 302 \<or> status_of (fst (handle h s r)) = Some 500)
       \<and> (\<exists>i < length (topics s). topics s ! i = t
             \<and> snd (handle h s r) = s\<lparr>topics := (topics s)[i :=
                   t\<lparr>title := post r (js ''title''),
                     description := post r (js ''description''),
                     updated_at := now r\<rparr>]\<rparr>)"
proof -
  let ?loc = "js ''/?id='' @ numberToString h (Finite (topic_id t)) @ js ''&'' @ listBaseQuery r"
  let ?s' = "s\<lparr>topics := (topics s)[the (array_findIndex
                 (\<lambda>x. Finite (topic_id x) = Finite (topic_id t)) (topics s)) :=
                   t\<lparr>title := post r (js ''title''),
                     description := post r (js ''description''),
                     updated_at := now r\<rparr>]\<rparr>"
  obtain i where i: "i < length (topics s)" "topics s ! i = t"
      "array_findIndex (\<lambda>x. Finite (topic_id x) = Finite (topic_id t)) (topics s) = Some i"
    using findIndex_by_id [OF unique_ids target(1)] by blast
  have g: "array_get (topics s) i = Some t" using i by (simp add: array_get_Some)
  have d: "handle h s r = (case update_process h s r (Some u) of
                             (Inl e, s') \<Rightarrow> (html 500 ServerError, s')
                           | (Inr out, s') \<Rightarrow> (out, s'))"
    using route logged_in by (simp add: handle_def post_route_def post_try_def paths_distinct)
  have u: "update_process h s r (Some u) = (writeHead_redirect ?loc, ?s')"
    using target(2) is_author i g
    by (simp add: update_process_def Let_def)
  have st: "status_of (fst (handle h s r)) = Some 302 \<or> status_of (fst (handle h s r)) = Some 500"
    by (simp add: d u writeHead_redirect_def redirect_def html_def)
  have "snd (handle h s r) = ?s'"
    by (simp add: d u writeHead_redirect_def)
  then have "\<exists>i < length (topics s). topics s ! i = t
          \<and> snd (handle h s r) = s\<lparr>topics := (topics s)[i :=
                t\<lparr>title := post r (js ''title''), description := post r (js ''description''),
                  updated_at := now r\<rparr>]\<rparr>"
    using i by (intro exI [of _ i]) simp
  then show ?thesis using st by blast
qed

lemma update_process_stores_when_location_is_legal:
  assumes logged_in: "getLoggedInUser s r = Inr (Some u)"
      and route: "request_method r = js ''POST''" "pathName r = js ''/update_process''"
      and unique_ids: "distinct (map topic_id (topics s))"
      and target: "t \<in> set (topics s)" "parseInt (post r (js ''id'')) = Finite (topic_id t)"
      and is_author: "author t = user_id u"
      and legal: "list_all header_char_ok
                    (js ''/?id='' @ numberToString h (Finite (topic_id t)) @ js ''&'' @ listBaseQuery r)"
  shows "status_of (fst (handle h s r)) = Some 302
       \<and> (\<exists>i < length (topics s). topics s ! i = t
             \<and> snd (handle h s r) = s\<lparr>topics := (topics s)[i :=
                   t\<lparr>title := post r (js ''title''),
                     description := post r (js ''description''),
                     updated_at := now r\<rparr>]\<rparr>)"
proof -
  obtain i where i: "i < length (topics s)" "topics s ! i = t"
      "array_findIndex (\<lambda>x. Finite (topic_id x) = Finite (topic_id t)) (topics s) = Some i"
    using findIndex_by_id [OF unique_ids target(1)] by blast
  have g: "array_get (topics s) i = Some t" using i by (simp add: array_get_Some)
  have d: "handle h s r = (case update_process h s r (Some u) of
                             (Inl e, s') \<Rightarrow> (html 500 ServerError, s')
                           | (Inr out, s') \<Rightarrow> (out, s'))"
    using route logged_in by (simp add: handle_def post_route_def post_try_def paths_distinct)
  have u: "update_process h s r (Some u) =
             (Inr (redirect (js ''/?id='' @ numberToString h (Finite (topic_id t)) @ js ''&''
                               @ listBaseQuery r)),
              s\<lparr>topics := (topics s)[i := t\<lparr>title := post r (js ''title''),
                   description := post r (js ''description''), updated_at := now r\<rparr>]\<rparr>)"
    using target(2) is_author i g legal
    by (simp add: update_process_def writeHead_redirect_def Let_def)
  have "status_of (fst (handle h s r)) = Some 302" by (simp add: d u redirect_def)
  moreover have "\<exists>i < length (topics s). topics s ! i = t
          \<and> snd (handle h s r) = s\<lparr>topics := (topics s)[i :=
                t\<lparr>title := post r (js ''title''), description := post r (js ''description''),
                  updated_at := now r\<rparr>]\<rparr>"
    using i by (intro exI [of _ i]) (simp add: d u)
  ultimately show ?thesis by blast
qed

lemma create_process_rejects_blank_fields:
  assumes logged_in: "getLoggedInUser s r = Inr (Some u)"
      and route: "request_method r = js ''POST''" "pathName r = js ''/create_process''"
      and single: "\<not> repeated (post r (js ''title''))"
      and blank: "is_blank (post r (js ''title'')) \<or> is_blank (post r (js ''description''))"
  shows "handle h s r = (html 400 BadRequest, s)"
proof -
  have d: "handle h s r = (case create_process s r (Some u) of
                             (Inl e, s') \<Rightarrow> (html 500 ServerError, s')
                           | (Inr out, s') \<Rightarrow> (out, s'))"
    using route logged_in by (simp add: handle_def post_route_def post_try_def paths_distinct)
  have t: "isEmptyOrWhitespace (post r (js ''title'')) = Inr (is_blank (post r (js ''title'')))"
    using single by (simp add: not_repeated_cases)
  have "js_or (isEmptyOrWhitespace (post r (js ''title'')))
              (isEmptyOrWhitespace (post r (js ''description''))) = Inr True"
  proof (cases "is_blank (post r (js ''title''))")
    case True
    then show ?thesis by (simp add: t js_or_def)
  next
    case False
    then have "isEmptyOrWhitespace (post r (js ''description'')) = Inr True"
      using blank by (simp add: is_blank_def)
    then show ?thesis using False by (simp add: t js_or_def)
  qed
  then show ?thesis by (simp add: d create_process_def)
qed

section \<open>Where the code departs from the specification\<close>

text \<open>
  C9. The update of a post by its author does not always end in a 302 redirect. The
  \<open>Location\<close> header repeats the posted \<open>page\<close>, \<open>limit\<close> and \<open>sort\<close> as they were sent; a
  line feed among them makes \<open>writeHead\<close> throw, after the post was rewritten and
  saved, and the \<open>catch\<close> block answers 500 for an update that took place.
\<close>

theorem update_with_line_feed_is_saved_and_answered_500:
  "getLoggedInUser example_state alice_updates_with_line_feed = Inr (Some (alice\<lparr>password := None\<rparr>))
   \<and> request_method alice_updates_with_line_feed = js ''POST''
   \<and> pathName alice_updates_with_line_feed = js ''/update_process''
   \<and> parseInt (post alice_updates_with_line_feed (js ''id'')) = Finite (topic_id hello)
   \<and> hello \<in> set (topics example_state)
   \<and> author hello = user_id alice
   \<and> post alice_updates_with_line_feed (js ''page'') = Single [0x0A]
   \<and> fst (handle example_host example_state alice_updates_with_line_feed) = html 500 ServerError
   \<and> status_of (fst (handle example_host example_state alice_updates_with_line_feed)) = Some 500
   \<and> topics (snd (handle example_host example_state alice_updates_with_line_feed))
       = [notice, hello\<lparr>title := Single [], description := Single (js ''  ''), updated_at := 5000\<rparr>]"
  by code_simp

text \<open>
  C5. The resolver does not return for every request: a cookie value that is not a
  well-formed percent-encoding makes \<open>decodeURIComponent\<close> throw, in any cookie, also
  when there is no \<open>sessionId\<close> cookie at all; nothing catches the exception.
\<close>

theorem malformed_cookie_is_not_caught:
  "headers_cookie malformed_cookie = Some (js ''lang=%'')
   \<and> getLoggedInUser example_state malformed_cookie = Inl URIError
   \<and> fst (handle example_host example_state malformed_cookie) = Uncaught URIError"
  by code_simp

text \<open>
  C6. The handler stores any username that is not blank and not taken; the rule of the
  registration form (letters and digits, four at least) is not checked.
\<close>

theorem register_accepts_short_symbol_username:
  "post register_short_name (js ''username'') = Single (js ''a!'')
   \<and> fst (handle example_host example_state register_short_name) = redirect (js ''/login'')
   \<and> map username (users (snd (handle example_host example_state register_short_name)))
       = [js ''alice1'', js ''bob22'', js ''a!'']"
  by code_simp

text \<open>
  C7. A \<open>POST\<close> to a path no route names is never answered: the branch for \<open>POST\<close>
  bodies has no final \<open>else\<close>, so neither a status nor a page is written.
\<close>

theorem post_to_unknown_path_gets_no_response:
  "request_method post_unknown_path = js ''POST'' \<and> pathName post_unknown_path = js ''/nope''
   \<and> fst (handle example_host example_state post_unknown_path) = NoResponse
   \<and> status_of (fst (handle example_host example_state post_unknown_path)) = None"
  by code_simp

end
